theory Spec2Isabelle
  imports Main
begin

section \<open>Multicorn's Filesystem access point (multicorn/corns/filesystem.py)\<close>

text \<open>
  A shallow embedding of \<^verbatim>\<open>src/multicorn/corns/filesystem.py\<close>. Python text is a
  \<^typ>\<open>string\<close>; an exception is a value of \<open>error\<close>, keeping the message template of the
  source and the values interpolated into it; a generator is the list of the tokens or
  records it yields together with the exception that ends it, if any.
\<close>

subsection \<open>Exceptions\<close>

datatype error =
    ValueError string "string list"
  | TypeError string
  | KeyError string
  | IndexError string
  | AssertionError
  | OSError string
  | IOError string
  | UnicodeDecodeError

subsection \<open>\<^verbatim>\<open>_tokenize_pattern\<close>\<close>

datatype token = PathSeparator | Property string | Literal char

text \<open>
  The loop of \<^verbatim>\<open>_tokenize_pattern\<close> over the triples (previous character, character, next
  character). The state is \<^verbatim>\<open>in_field\<close> and \<^verbatim>\<open>field_name\<close> (\<open>None\<close> is Python's
  \<^verbatim>\<open>None\<close>); the previous character is that of the pattern, whatever the branch taken on
  it. The result is the tokens yielded and the exception raised after them, if any.
  While \<^verbatim>\<open>in_field\<close> holds \<^verbatim>\<open>field_name\<close> is a string: the two branches for \<open>None\<close>
  there are what Python would do in a state that the loop never reaches.
\<close>

definition yield :: "'a \<Rightarrow> 'a list \<times> error option \<Rightarrow> 'a list \<times> error option" where
  "yield t rest = (t # fst rest, snd rest)"

fun tokenize_loop ::
  "bool \<Rightarrow> string option \<Rightarrow> char option \<Rightarrow> string \<Rightarrow> token list \<times> error option" where
  "tokenize_loop in_field field_name prev_char [] =
     (if in_field then ([], Some (ValueError ''Unmatched '{' in format string'' []))
      else ([PathSeparator], None))"
| "tokenize_loop in_field field_name prev_char (char # rest) =
     (let next_char = (case rest of [] \<Rightarrow> None | n # _ \<Rightarrow> Some n) in
      if in_field then
        (if char = CHR ''}'' then
           (case field_name of
              None \<Rightarrow> yield (Property []) (tokenize_loop False None (Some char) rest)
            | Some name \<Rightarrow> yield (Property name) (tokenize_loop False None (Some char) rest))
         else
           (case field_name of
              None \<Rightarrow> ([], Some (TypeError ''unsupported operand type(s) for +=''))
            | Some name \<Rightarrow> tokenize_loop True (Some (name @ [char])) (Some char) rest))
      else
        (if char = CHR ''/'' then
           yield PathSeparator (tokenize_loop False field_name (Some char) rest)
         else if (char = CHR ''{'' \<or> char = CHR ''}'') \<and> next_char = Some char then
           tokenize_loop False field_name (Some char) rest
         else if char = CHR ''}'' \<and> prev_char \<noteq> Some char then
           ([], Some (ValueError ''Single '}' encountered in format string'' []))
         else if char = CHR ''{'' \<and> prev_char \<noteq> Some char then
           tokenize_loop True (Some []) (Some char) rest
         else
           yield (Literal char) (tokenize_loop False field_name (Some char) rest)))"

definition tokenize_pattern :: "string \<Rightarrow> token list \<times> error option" where
  "tokenize_pattern pattern = tokenize_loop False None None pattern"

subsection \<open>Regular expressions of the shape \<^verbatim>\<open>_parse_pattern\<close> builds\<close>

text \<open>
  \<^verbatim>\<open>_parse_pattern\<close> only ever compiles \<^verbatim>\<open>'^%s$'\<close> around a concatenation of
  \<^verbatim>\<open>re.escape(char)\<close> and \<^verbatim>\<open>'(?P<name>.*)'\<close>. A regular expression is the list of these
  atoms. \<open>re_match\<close> is Python's \<^verbatim>\<open>pattern.match(string)\<close> with no flags: the match starts
  at position 0 and need not reach the end of the string; \<^verbatim>\<open>^\<close> matches at position 0;
  \<^verbatim>\<open>$\<close> matches at the end of the string and also just before a newline that is the
  last character; \<^verbatim>\<open>.\<close> matches any character but a newline; \<^verbatim>\<open>.*\<close> is greedy and
  backtracks from the longest run to the empty one. A match object is the text matched
  (\<^verbatim>\<open>group(0)\<close>) and the named groups in the order of the pattern (\<^verbatim>\<open>groupdict()\<close>).
\<close>

datatype re_atom = Caret | Dollar | Escaped char | NamedGroup string

type_synonym regex = "re_atom list"

record match_object =
  group0 :: string
  groupdict :: "(string \<times> string) list"

definition newline :: char where
  "newline = CHR 0x0A"

fun first_some :: "(nat \<Rightarrow> 'a option) \<Rightarrow> nat \<Rightarrow> 'a option" where
  "first_some f 0 = f 0"
| "first_some f (Suc k) = (case f (Suc k) of Some r \<Rightarrow> Some r | None \<Rightarrow> first_some f k)"

definition dot_run :: "string \<Rightarrow> nat" where
  "dot_run s = length (takeWhile (\<lambda>c. c \<noteq> newline) s)"

definition extend_match :: "string \<Rightarrow> (string \<times> string) list \<Rightarrow> match_object \<Rightarrow> match_object" where
  "extend_match text groups m =
     \<lparr>group0 = text @ group0 m, groupdict = groups @ groupdict m\<rparr>"

fun match_here :: "regex \<Rightarrow> nat \<Rightarrow> string \<Rightarrow> match_object option" where
  "match_here [] pos s = Some \<lparr>group0 = [], groupdict = []\<rparr>"
| "match_here (Caret # r) pos s = (if pos = 0 then match_here r pos s else None)"
| "match_here (Dollar # r) pos s =
     (if s = [] \<or> s = [newline] then match_here r pos s else None)"
| "match_here (Escaped c # r) pos s =
     (case s of
        [] \<Rightarrow> None
      | x # xs \<Rightarrow>
          if x = c then map_option (extend_match [x] []) (match_here r (Suc pos) xs)
          else None)"
| "match_here (NamedGroup name # r) pos s =
     first_some
       (\<lambda>k. map_option (extend_match (take k s) [(name, take k s)])
              (match_here r (pos + k) (drop k s)))
       (dot_run s)"

definition re_match :: "regex \<Rightarrow> string \<Rightarrow> match_object option" where
  "re_match r s = match_here r 0 s"

subsection \<open>\<^verbatim>\<open>_parse_pattern\<close>\<close>

text \<open>
  Modelled from the spec: \<^verbatim>\<open>isidentifier\<close> is imported from \<^verbatim>\<open>multicorn/utils\<close>, which
  is not among the sources. The spec describes a legal field name as an identifier:
  alphanumeric or underscore characters, not starting with a digit. The empty name is not
  an identifier.
\<close>

definition is_digit :: "char \<Rightarrow> bool" where
  "is_digit c = (c \<in> set ''0123456789'')"

definition is_alpha :: "char \<Rightarrow> bool" where
  "is_alpha c =
     (c \<in> set ''abcdefghijklmnopqrstuvwxyz'' \<or> c \<in> set ''ABCDEFGHIJKLMNOPQRSTUVWXYZ'')"

definition is_name_char :: "char \<Rightarrow> bool" where
  "is_name_char c = (is_alpha c \<or> is_digit c \<or> c = CHR ''_'')"

definition isidentifier :: "string \<Rightarrow> bool" where
  "isidentifier s =
     (case s of [] \<Rightarrow> False | c # cs \<Rightarrow> \<not> is_digit c \<and> list_all is_name_char (c # cs))"

text \<open>
  The loop of \<^verbatim>\<open>_parse_pattern\<close> over the tokens. Its state is the three local
  variables \<^verbatim>\<open>path_properties\<close>, \<^verbatim>\<open>path_parts_re\<close> and \<^verbatim>\<open>next_re\<close>, and the
  last token seen, which the assertion after the loop reads.
\<close>

fun parse_loop ::
  "string \<Rightarrow> string list \<Rightarrow> regex list \<Rightarrow> re_atom list \<Rightarrow> token option \<Rightarrow> token list
     \<Rightarrow> error + (string list \<times> regex list \<times> token option)" where
  "parse_loop pattern props parts next_re token_type [] = Inr (props, parts, token_type)"
| "parse_loop pattern props parts next_re token_type (PathSeparator # toks) =
     (if next_re = [] then
        Inl (ValueError ''A slash-separated part is empty in %r'' [pattern])
      else
        parse_loop pattern props (parts @ [[Caret] @ next_re @ [Dollar]]) []
          (Some PathSeparator) toks)"
| "parse_loop pattern props parts next_re token_type (Property name # toks) =
     (if \<not> isidentifier name then
        Inl (ValueError
          ''Invalid property name for Filesystem: %r. Must be a valid identifier'' [name])
      else if name \<in> set props then
        Inl (ValueError
          ''Property name %r appears more than once in the pattern %r.'' [name, pattern])
      else
        parse_loop pattern (props @ [name]) parts (next_re @ [NamedGroup name])
          (Some (Property name)) toks)"
| "parse_loop pattern props parts next_re token_type (Literal c # toks) =
     parse_loop pattern props parts (next_re @ [Escaped c]) (Some (Literal c)) toks"

definition parse_pattern :: "string \<Rightarrow> error + (regex list \<times> string list)" where
  "parse_pattern pattern =
     (case tokenize_pattern pattern of (toks, raised) \<Rightarrow>
        (case parse_loop pattern [] [] [] None toks of
           Inl e \<Rightarrow> Inl e
         | Inr (props, parts, token_type) \<Rightarrow>
             (case raised of
                Some e \<Rightarrow> Inl e
              | None \<Rightarrow>
                  if token_type = Some PathSeparator then Inr (parts, props)
                  else Inl AssertionError)))"

subsection \<open>The Python library functions the module calls\<close>

text \<open>
  What the hosting environment supplies and the module does not fix: how a value is
  rendered when a replacement field of \<^verbatim>\<open>str.format\<close> carries more than a name (an
  attribute, an index, a conversion or a format specification; the first argument is the
  value, the second what follows the name in the field), and the codecs (the first
  argument is the encoding). Every function below that reaches one of them takes the
  host as a parameter.
\<close>

record host =
  format_field :: "string \<Rightarrow> string \<Rightarrow> error + string"
  decode :: "string \<Rightarrow> string \<Rightarrow> error + string"
  encode :: "string \<Rightarrow> string \<Rightarrow> error + string"

text \<open>\<^verbatim>\<open>s.split('/')\<close>: the pieces between the slashes, at least one piece.\<close>

fun split_slash :: "string \<Rightarrow> string list" where
  "split_slash [] = [[]]"
| "split_slash (c # cs) =
     (if c = CHR ''/'' then [] # split_slash cs
      else (case split_slash cs of [] \<Rightarrow> [[c]] | x # xs \<Rightarrow> (c # x) # xs))"

definition startswith :: "string \<Rightarrow> string \<Rightarrow> bool" where
  "startswith s p = (take (length p) s = p)"

definition endswith :: "string \<Rightarrow> string \<Rightarrow> bool" where
  "endswith s p = (length p \<le> length s \<and> drop (length s - length p) s = p)"

text \<open>\<^verbatim>\<open>os.path.join(a, *p)\<close> of \<^verbatim>\<open>posixpath\<close>.\<close>

fun os_path_join :: "string \<Rightarrow> string list \<Rightarrow> string" where
  "os_path_join path [] = path"
| "os_path_join path (b # p) =
     os_path_join
       (if startswith b ''/'' then b
        else if path = [] \<or> endswith path ''/'' then path @ b
        else path @ ''/'' @ b) p"

text \<open>
  \<^verbatim>\<open>os.path.dirname(p)\<close> of \<^verbatim>\<open>posixpath\<close>: what precedes the last slash, without its
  trailing slashes unless it consists of slashes only.
\<close>

definition rstrip_slash :: "string \<Rightarrow> string" where
  "rstrip_slash s = rev (dropWhile (\<lambda>c. c = CHR ''/'') (rev s))"

definition os_path_dirname :: "string \<Rightarrow> string" where
  "os_path_dirname p =
     (let head = rev (dropWhile (\<lambda>c. c \<noteq> CHR ''/'') (rev p)) in
      if head \<noteq> [] \<and> \<not> list_all (\<lambda>c. c = CHR ''/'') head then rstrip_slash head else head)"

text \<open>
  \<^verbatim>\<open>pattern.format(**values)\<close>, as CPython's markup iterator reads the format string:
  outside a replacement field a doubled brace is one literal brace and both characters
  are consumed, a single closing brace is an error, and a single opening brace starts a
  field that runs to its matching closing brace, nested braces counted. A field is looked
  up by the name that precedes the first of \<^verbatim>\<open>. [ : !\<close>; an empty or numeric name is a
  positional argument, and there is none; a field that is the name alone renders the
  text it is bound to.
\<close>

definition ends_name :: "char \<Rightarrow> bool" where
  "ends_name c = (c \<in> set ''.[:!'')"

definition render_field :: "host \<Rightarrow> (string \<rightharpoonup> string) \<Rightarrow> string \<Rightarrow> error + string" where
  "render_field h vals field =
     (let first = takeWhile (\<lambda>c. \<not> ends_name c) field in
      if first = [] \<or> list_all is_digit first then Inl (IndexError ''tuple index out of range'')
      else
        (case vals first of
           None \<Rightarrow> Inl (KeyError first)
         | Some v \<Rightarrow>
             if field = first then Inr v
             else format_field h v (drop (length first) field)))"

datatype format_state = Outside | InField nat string

fun format_loop :: "host \<Rightarrow> (string \<rightharpoonup> string) \<Rightarrow> format_state \<Rightarrow> string \<Rightarrow> error + string" where
  "format_loop h vals Outside [] = Inr []"
| "format_loop h vals (InField count buf) [] = Inl (ValueError ''unmatched '{' in format'' [])"
| "format_loop h vals Outside [c] =
     (if c = CHR ''{'' then Inl (ValueError ''Single '{' encountered in format string'' [])
      else if c = CHR ''}'' then Inl (ValueError ''Single '}' encountered in format string'' [])
      else Inr [c])"
| "format_loop h vals Outside (c # d # rest) =
     (if c = CHR ''}'' then
        (if d = c then map_sum id ((#) c) (format_loop h vals Outside rest)
         else Inl (ValueError ''Single '}' encountered in format string'' []))
      else if c = CHR ''{'' then
        (if d = c then map_sum id ((#) c) (format_loop h vals Outside rest)
         else format_loop h vals (InField 1 []) (d # rest))
      else map_sum id ((#) c) (format_loop h vals Outside (d # rest)))"
| "format_loop h vals (InField count buf) (c # rest) =
     (if c = CHR ''{'' then format_loop h vals (InField (Suc count) (buf @ [c])) rest
      else if c = CHR ''}'' then
        (if count \<le> 1 then
           (case render_field h vals buf of
              Inl e \<Rightarrow> Inl e
            | Inr text \<Rightarrow> map_sum id ((@) text) (format_loop h vals Outside rest))
         else format_loop h vals (InField (count - 1) (buf @ [c])) rest)
      else format_loop h vals (InField count (buf @ [c])) rest)"

definition str_format :: "host \<Rightarrow> string \<Rightarrow> (string \<rightharpoonup> string) \<Rightarrow> error + string" where
  "str_format h pattern vals = format_loop h vals Outside pattern"

subsection \<open>The file system\<close>

text \<open>
  The external operations the module consumes, over a tree: a directory lists its entries
  by name, in the order \<^verbatim>\<open>os.listdir\<close> returns them. A path is resolved from the top of
  the tree, component by component: an empty component and \<^verbatim>\<open>.\<close> stay, \<^verbatim>\<open>..\<close> goes to the
  parent, and every component but the last must lead through a directory. There are no
  symbolic links and no permissions. \<open>read_log\<close> records each file read, in order.
\<close>

datatype node = File string | Dir "(string \<times> node) list"

record os_state =
  tree :: node
  read_log :: "string list"

fun lookup :: "node \<Rightarrow> string list \<Rightarrow> node option" where
  "lookup n [] = Some n"
| "lookup (File b) (c # cs) = None"
| "lookup (Dir es) (c # cs) = (case map_of es c of None \<Rightarrow> None | Some n \<Rightarrow> lookup n cs)"

fun set_entry :: "string \<Rightarrow> node option \<Rightarrow> (string \<times> node) list \<Rightarrow> (string \<times> node) list" where
  "set_entry c None [] = []"
| "set_entry c (Some n) [] = [(c, n)]"
| "set_entry c v ((k, n) # es) =
     (if k = c then (case v of None \<Rightarrow> es | Some n' \<Rightarrow> (k, n') # es)
      else (k, n) # set_entry c v es)"

fun update_at :: "node \<Rightarrow> string list \<Rightarrow> node option \<Rightarrow> node" where
  "update_at n [] v = n"
| "update_at (File b) (c # cs) v = File b"
| "update_at (Dir es) [c] v = Dir (set_entry c v es)"
| "update_at (Dir es) (c # cs) v =
     Dir (map (\<lambda>(k, n). if k = c then (k, update_at n cs v) else (k, n)) es)"

fun walk_path :: "node \<Rightarrow> string list \<Rightarrow> string list \<Rightarrow> string list option" where
  "walk_path t cur [] = Some cur"
| "walk_path t cur (c # cs) =
     (case lookup t cur of
        Some (Dir es) \<Rightarrow>
          walk_path t
            (if c = [] \<or> c = ''.'' then cur else if c = ''..'' then butlast cur else cur @ [c])
            cs
      | _ \<Rightarrow> None)"

definition resolve :: "node \<Rightarrow> string \<Rightarrow> string list option" where
  "resolve t path = (if path = [] then None else walk_path t [] (split_slash path))"

definition stat :: "os_state \<Rightarrow> string \<Rightarrow> node option" where
  "stat st path = (case resolve (tree st) path of None \<Rightarrow> None | Some p \<Rightarrow> lookup (tree st) p)"

definition os_path_exists :: "os_state \<Rightarrow> string \<Rightarrow> bool" where
  "os_path_exists st path = (stat st path \<noteq> None)"

definition os_path_isfile :: "os_state \<Rightarrow> string \<Rightarrow> bool" where
  "os_path_isfile st path = (case stat st path of Some (File b) \<Rightarrow> True | _ \<Rightarrow> False)"

definition os_path_isdir :: "os_state \<Rightarrow> string \<Rightarrow> bool" where
  "os_path_isdir st path = (case stat st path of Some (Dir es) \<Rightarrow> True | _ \<Rightarrow> False)"

definition os_listdir :: "os_state \<Rightarrow> string \<Rightarrow> error + string list" where
  "os_listdir st path =
     (case stat st path of
        Some (Dir es) \<Rightarrow> Inr (map fst es)
      | Some (File b) \<Rightarrow> Inl (OSError ''ENOTDIR'')
      | None \<Rightarrow> Inl (OSError ''ENOENT''))"

definition os_remove :: "os_state \<Rightarrow> string \<Rightarrow> error option \<times> os_state" where
  "os_remove st path =
     (case resolve (tree st) path of
        None \<Rightarrow> (Some (OSError ''ENOENT''), st)
      | Some p \<Rightarrow>
          (case lookup (tree st) p of
             Some (File b) \<Rightarrow> (None, st\<lparr>tree := update_at (tree st) p None\<rparr>)
           | Some (Dir es) \<Rightarrow> (Some (OSError ''EISDIR''), st)
           | None \<Rightarrow> (Some (OSError ''ENOENT''), st)))"

text \<open>
  \<^verbatim>\<open>os.rmdir\<close>: the last component of the path may be followed by slashes, and must not
  be \<^verbatim>\<open>.\<close> or \<^verbatim>\<open>..\<close>; the directory must be empty and must not be the top of the tree.
\<close>

definition last_component :: "string \<Rightarrow> string" where
  "last_component path = last (split_slash (rstrip_slash path))"

definition os_rmdir :: "os_state \<Rightarrow> string \<Rightarrow> error option \<times> os_state" where
  "os_rmdir st path =
     (case resolve (tree st) path of
        None \<Rightarrow> (Some (OSError ''ENOENT''), st)
      | Some p \<Rightarrow>
          (case lookup (tree st) p of
             None \<Rightarrow> (Some (OSError ''ENOENT''), st)
           | Some (File b) \<Rightarrow> (Some (OSError ''ENOTDIR''), st)
           | Some (Dir es) \<Rightarrow>
               if last_component path = ''.'' then (Some (OSError ''EINVAL''), st)
               else if last_component path = ''..'' then (Some (OSError ''ENOTEMPTY''), st)
               else if p = [] then (Some (OSError ''EBUSY''), st)
               else if es \<noteq> [] then (Some (OSError ''ENOTEMPTY''), st)
               else (None, st\<lparr>tree := update_at (tree st) p None\<rparr>)))"

definition os_mkdir :: "os_state \<Rightarrow> string \<Rightarrow> error option \<times> os_state" where
  "os_mkdir st path =
     (case resolve (tree st) (rstrip_slash path) of
        None \<Rightarrow> (Some (OSError ''ENOENT''), st)
      | Some p \<Rightarrow>
          (case lookup (tree st) p of
             Some n \<Rightarrow> (Some (OSError ''EEXIST''), st)
           | None \<Rightarrow>
               (case lookup (tree st) (butlast p) of
                  Some (Dir es) \<Rightarrow> (None, st\<lparr>tree := update_at (tree st) p (Some (Dir []))\<rparr>)
                | Some (File b) \<Rightarrow> (Some (OSError ''ENOTDIR''), st)
                | None \<Rightarrow> (Some (OSError ''ENOENT''), st))))"

text \<open>\<^verbatim>\<open>os.path.split\<close> of \<^verbatim>\<open>posixpath\<close> and \<^verbatim>\<open>os.makedirs\<close>, as the library writes them.\<close>

definition os_path_split :: "string \<Rightarrow> string \<times> string" where
  "os_path_split p =
     (let tail = rev (takeWhile (\<lambda>c. c \<noteq> CHR ''/'') (rev p));
          head = rev (dropWhile (\<lambda>c. c \<noteq> CHR ''/'') (rev p))
      in (if head \<noteq> [] \<and> \<not> list_all (\<lambda>c. c = CHR ''/'') head then rstrip_slash head else head,
          tail))"

definition makedirs_split :: "string \<Rightarrow> string \<times> string" where
  "makedirs_split name =
     (if snd (os_path_split name) = [] then os_path_split (fst (os_path_split name))
      else os_path_split name)"

lemma length_rstrip_slash: "length (rstrip_slash s) \<le> length s"
  unfolding rstrip_slash_def using length_dropWhile_le [of "\<lambda>c. c = CHR ''/''" "rev s"] by simp

lemma os_path_split_length:
  "length (fst (os_path_split p)) + length (snd (os_path_split p)) \<le> length p"
proof -
  let ?h = "rev (dropWhile (\<lambda>c. c \<noteq> CHR ''/'') (rev p))"
  let ?t = "rev (takeWhile (\<lambda>c. c \<noteq> CHR ''/'') (rev p))"
  have "length ?h + length ?t = length p"
    using takeWhile_dropWhile_id [of "\<lambda>c. c \<noteq> CHR ''/''" "rev p"]
    by (metis add.commute length_append length_rev)
  moreover have "length (rstrip_slash ?h) \<le> length ?h"
    by (rule length_rstrip_slash)
  ultimately show ?thesis
    by (simp add: os_path_split_def Let_def)
qed

lemma makedirs_split_shorter:
  assumes "makedirs_split name = (head, tail)" and "tail \<noteq> []"
  shows "length head < length name"
proof (cases "snd (os_path_split name) = []")
  case True
  then have "makedirs_split name = os_path_split (fst (os_path_split name))"
    by (simp add: makedirs_split_def)
  with assms have "length head + length tail \<le> length (fst (os_path_split name))"
    using os_path_split_length [of "fst (os_path_split name)"] by simp
  moreover have "length (fst (os_path_split name)) \<le> length name"
    using os_path_split_length [of name] by simp
  ultimately show ?thesis using assms(2) by (cases tail) auto
next
  case False
  then have "makedirs_split name = os_path_split name"
    by (simp add: makedirs_split_def)
  with assms have "length head + length tail \<le> length name"
    using os_path_split_length [of name] by simp
  then show ?thesis using assms(2) by (cases tail) auto
qed

function os_makedirs :: "os_state \<Rightarrow> string \<Rightarrow> error option \<times> os_state" where
  "os_makedirs st name =
     (case makedirs_split name of
        (head, tail) \<Rightarrow>
          if head \<noteq> [] \<and> tail \<noteq> [] \<and> \<not> os_path_exists st head then
            (case os_makedirs st head of
               (Some e, st') \<Rightarrow>
                 if e \<noteq> OSError ''EEXIST'' then (Some e, st')
                 else if tail = ''.'' then (None, st')
                 else os_mkdir st' name
             | (None, st') \<Rightarrow> if tail = ''.'' then (None, st') else os_mkdir st' name)
          else os_mkdir st name)"
  by pat_completeness auto
termination
  by (relation "measure (\<lambda>(st, name). length name)")
    (auto dest: makedirs_split_shorter [OF sym])

text \<open>
  \<^verbatim>\<open>io.open(filename, 'wb' or 'wt')\<close>: the file is created, or emptied when it exists,
  in a directory that exists. \<^verbatim>\<open>io.open(filename, 'rb' or 'rt')\<close> followed by
  \<^verbatim>\<open>read()\<close>: the bytes of the file, and the read is logged.
\<close>

definition open_for_writing :: "os_state \<Rightarrow> string \<Rightarrow> error + (string list \<times> os_state)" where
  "open_for_writing st path =
     (case resolve (tree st) path of
        None \<Rightarrow> Inl (IOError ''ENOENT'')
      | Some p \<Rightarrow>
          (case lookup (tree st) p of
             Some (Dir es) \<Rightarrow> Inl (IOError ''EISDIR'')
           | _ \<Rightarrow>
               (case lookup (tree st) (butlast p) of
                  Some (Dir es) \<Rightarrow>
                    if p = [] then Inl (IOError ''EISDIR'')
                    else Inr (p, st\<lparr>tree := update_at (tree st) p (Some (File []))\<rparr>)
                | Some (File b) \<Rightarrow> Inl (IOError ''ENOTDIR'')
                | None \<Rightarrow> Inl (IOError ''ENOENT''))))"

definition stream_write :: "os_state \<Rightarrow> string list \<Rightarrow> string \<Rightarrow> os_state" where
  "stream_write st p bytes = st\<lparr>tree := update_at (tree st) p (Some (File bytes))\<rparr>"

definition read_file :: "os_state \<Rightarrow> string \<Rightarrow> error + (string \<times> os_state)" where
  "read_file st path =
     (case stat st path of
        Some (File b) \<Rightarrow> Inr (b, st\<lparr>read_log := read_log st @ [path]\<rparr>)
      | Some (Dir es) \<Rightarrow> Inl (IOError ''EISDIR'')
      | None \<Rightarrow> Inl (IOError ''ENOENT''))"

subsection \<open>\<^verbatim>\<open>LazyFileReader\<close>\<close>

datatype file_content = Bytes string | Text string

record lazy_file_reader =
  reader_filename :: string
  reader_encoding :: "string option"
  reader_content :: "file_content option"

definition LazyFileReader :: "string \<Rightarrow> string option \<Rightarrow> lazy_file_reader" where
  "LazyFileReader fname enc =
     \<lparr>reader_filename = fname, reader_encoding = enc, reader_content = None\<rparr>"

text \<open>
  \<^verbatim>\<open>LazyFileReader.__call__\<close>: the value returned or the exception raised, the reader
  afterwards and the state of the file system afterwards. Mode \<^verbatim>\<open>'rb'\<close> reads bytes;
  mode \<^verbatim>\<open>'rt'\<close> decodes what it reads with the encoding.
\<close>

definition reader_call ::
  "host \<Rightarrow> lazy_file_reader \<Rightarrow> os_state \<Rightarrow> (error + file_content) \<times> lazy_file_reader \<times> os_state"
  where
  "reader_call h r st =
     (case reader_content r of
        Some c \<Rightarrow> (Inr c, r, st)
      | None \<Rightarrow>
          (case read_file st (reader_filename r) of
             Inl e \<Rightarrow> (Inl e, r, st)
           | Inr (bytes, st') \<Rightarrow>
               (case reader_encoding r of
                  None \<Rightarrow> (Inr (Bytes bytes), r\<lparr>reader_content := Some (Bytes bytes)\<rparr>, st')
                | Some enc \<Rightarrow>
                    (case decode h enc bytes of
                       Inl e \<Rightarrow> (Inl e, r, st')
                     | Inr t \<Rightarrow> (Inr (Text t), r\<lparr>reader_content := Some (Text t)\<rparr>, st')))))"

text \<open>The content is requested \<open>n\<close> times in a row; the values returned, oldest first.\<close>

fun request_times ::
  "host \<Rightarrow> nat \<Rightarrow> lazy_file_reader \<Rightarrow> os_state
     \<Rightarrow> (error + file_content) list \<times> lazy_file_reader \<times> os_state" where
  "request_times h 0 r st = ([], r, st)"
| "request_times h (Suc n) r st =
     (case reader_call h r st of
        (v, r', st') \<Rightarrow>
          (case request_times h n r' st' of (vs, r'', st'') \<Rightarrow> (v # vs, r'', st'')))"

subsection \<open>\<^verbatim>\<open>Filesystem\<close> and its items\<close>

datatype pytype = unicode | bytes

record property_type =
  type_type :: pytype
  type_name :: string

record filesystem =
  name :: string
  root_dir :: string
  pattern :: string
  encoding :: "string option"
  content_property :: string
  path_parts_re :: "regex list"
  identity_properties :: "string list"
  properties :: "(string \<times> property_type) list"

text \<open>
  A Python dictionary as the list of its items: \<^verbatim>\<open>d[key] = value\<close> replaces the value of
  a key it has and adds the item otherwise; \<^verbatim>\<open>dict(pairs)\<close> sets the pairs in order.
\<close>

fun setitem :: "'k \<Rightarrow> 'v \<Rightarrow> ('k \<times> 'v) list \<Rightarrow> ('k \<times> 'v) list" where
  "setitem key v [] = [(key, v)]"
| "setitem key v ((k, w) # d) = (if k = key then (k, v) # d else (k, w) # setitem key v d)"

definition dict :: "('k \<times> 'v) list \<Rightarrow> ('k \<times> 'v) list" where
  "dict pairs = fold (\<lambda>(k, v). setitem k v) pairs []"

text \<open>
  A Python value as the module tells values apart: \<^verbatim>\<open>unicode\<close> text, a byte string
  (\<^verbatim>\<open>str\<close>), or an object that is neither.
\<close>

datatype pyvalue = PyUnicode string | PyStr string | PyObject

text \<open>
  Modelled from the spec: \<^verbatim>\<open>BaseItem\<close> and \<^verbatim>\<open>AbstractCorn\<close> are imported from modules
  that are not among the sources. A record is the field values extracted along a path
  plus a deferred content accessor, and belongs to the access point that created it;
  \<^verbatim>\<open>item[name]\<close> is the value of the field, and a \<^verbatim>\<open>KeyError\<close> when there is none.
  \<^verbatim>\<open>AbstractCorn.__init__\<close> records the name and the identity properties and starts
  with no property.
\<close>

record item =
  corn :: filesystem
  item_values :: "(string \<times> pyvalue) list"
  lazy_values :: "(string \<times> lazy_file_reader) list"

definition getitem :: "item \<Rightarrow> string \<Rightarrow> error + pyvalue" where
  "getitem it key =
     (case map_of (item_values it) key of None \<Rightarrow> Inl (KeyError key) | Some v \<Rightarrow> Inr v)"

definition create :: "filesystem \<Rightarrow> (string \<times> string) list \<Rightarrow> (string \<times> lazy_file_reader) list \<Rightarrow> item"
  where
  "create self vals lazy =
     \<lparr>corn = self, item_values = dict (map (\<lambda>(k, v). (k, PyUnicode v)) vals),
      lazy_values = lazy\<rparr>"

definition AbstractCorn_init :: "string \<Rightarrow> string list \<Rightarrow> filesystem \<Rightarrow> filesystem" where
  "AbstractCorn_init nm ids self = self\<lparr>name := nm, identity_properties := ids, properties := []\<rparr>"

text \<open>\<^verbatim>\<open>Filesystem.__init__\<close>. Each path property is given the name of the access point.\<close>

definition Filesystem_init ::
  "string \<Rightarrow> string \<Rightarrow> string \<Rightarrow> string option \<Rightarrow> string \<Rightarrow> error + filesystem" where
  "Filesystem_init nm rd pat enc cp =
     (case parse_pattern pat of
        Inl e \<Rightarrow> Inl e
      | Inr (res, props) \<Rightarrow>
          (let self = AbstractCorn_init nm props
                 \<lparr>name = [], root_dir = rd, pattern = pat, encoding = enc,
                  content_property = cp, path_parts_re = res, identity_properties = [],
                  properties = []\<rparr>;
               self = fold (\<lambda>property_name s.
                        s\<lparr>properties :=
                            setitem property_name \<lparr>type_type = unicode, type_name = nm\<rparr>
                              (properties s)\<rparr>)
                      props self
           in Inr (self\<lparr>properties :=
                     setitem cp \<lparr>type_type = (if enc = None then bytes else unicode),
                                 type_name = cp\<rparr>
                       (properties self)\<rparr>)))"

definition register ::
  "filesystem \<Rightarrow> string \<Rightarrow> (string \<times> pyvalue) list \<Rightarrow> error option \<times> filesystem" where
  "register self nm kwargs =
     (Some (TypeError ''Filesystem does not take extra properties.''), self)"

subsection \<open>\<^verbatim>\<open>FilesystemItem\<close>\<close>

definition is_ascii :: "char \<Rightarrow> bool" where
  "is_ascii c = ((of_char c :: nat) < 128)"

definition strict_unicode :: "pyvalue \<Rightarrow> error + string" where
  "strict_unicode v =
     (case v of
        PyUnicode s \<Rightarrow> Inr s
      | PyStr s \<Rightarrow> if list_all is_ascii s then Inr s else Inl UnicodeDecodeError
      | PyObject \<Rightarrow>
          Inl (TypeError ''Filename property values must be of type unicode, got %r.''))"

text \<open>The loop of \<^verbatim>\<open>filename\<close> over the identity properties, filling \<^verbatim>\<open>values\<close>.\<close>

fun filename_loop :: "item \<Rightarrow> (string \<rightharpoonup> string) \<Rightarrow> string list \<Rightarrow> error + (string \<rightharpoonup> string)" where
  "filename_loop it vals [] = Inr vals"
| "filename_loop it vals (nm # names) =
     (case getitem it nm of
        Inl e \<Rightarrow> Inl e
      | Inr v \<Rightarrow>
          (case strict_unicode v of
             Inl e \<Rightarrow> Inl e
           | Inr text \<Rightarrow>
               if CHR ''/'' \<in> set text then
                 Inl (ValueError
                   ''Filename property values can not contain a slash in Filesystem.'' [])
               else filename_loop it (vals(nm \<mapsto> text)) names))"

definition filename :: "host \<Rightarrow> item \<Rightarrow> error + string" where
  "filename h it =
     (case filename_loop it Map.empty (identity_properties (corn it)) of
        Inl e \<Rightarrow> Inl e
      | Inr vals \<Rightarrow> str_format h (pattern (corn it)) vals)"

definition full_filename :: "host \<Rightarrow> item \<Rightarrow> error + string" where
  "full_filename h it =
     (case filename h it of
        Inl e \<Rightarrow> Inl e
      | Inr f \<Rightarrow> Inr (os_path_join (root_dir (corn it)) (split_slash f)))"

subsection \<open>\<^verbatim>\<open>Filesystem.save\<close> and \<^verbatim>\<open>Filesystem.delete\<close>\<close>

text \<open>
  Both return the exception raised, if any, and the state of the file system they leave.
  \<^verbatim>\<open>item.corn is self\<close> is the equality of the two access points.
\<close>

definition write_content :: "host \<Rightarrow> filesystem \<Rightarrow> item \<Rightarrow> string \<Rightarrow> os_state \<Rightarrow> error option \<times> os_state"
  where
  "write_content h self it fname st =
     (case open_for_writing st fname of
        Inl e \<Rightarrow> (Some e, st)
      | Inr (p, st') \<Rightarrow>
          (case getitem it (content_property self) of
             Inl e \<Rightarrow> (Some e, st')
           | Inr v \<Rightarrow>
               (case (encoding self, v) of
                  (None, PyStr b) \<Rightarrow> (None, stream_write st' p b)
                | (None, _) \<Rightarrow> (Some (TypeError ''write() argument must be bytes''), st')
                | (Some enc, PyUnicode t) \<Rightarrow>
                    (case encode h enc t of
                       Inl e \<Rightarrow> (Some e, st')
                     | Inr b \<Rightarrow> (None, stream_write st' p b))
                | (Some enc, _) \<Rightarrow> (Some (TypeError ''write() argument must be unicode''), st'))))"

definition save :: "host \<Rightarrow> filesystem \<Rightarrow> item \<Rightarrow> os_state \<Rightarrow> error option \<times> os_state" where
  "save h self it st =
     (if corn it \<noteq> self then (Some AssertionError, st)
      else
        (case full_filename h it of
           Inl e \<Rightarrow> (Some e, st)
         | Inr fname \<Rightarrow>
             if \<not> startswith fname (root_dir self) then (Some AssertionError, st)
             else
               (let directory = os_path_dirname fname in
                case (if \<not> os_path_exists st directory then os_makedirs st directory
                      else (None, st)) of
                  (Some e, st') \<Rightarrow> (Some e, st')
                | (None, st') \<Rightarrow> write_content h self it fname st')))"

definition join :: "filesystem \<Rightarrow> string list \<Rightarrow> string" where
  "join self path_parts = os_path_join (root_dir self) path_parts"

function delete_loop :: "filesystem \<Rightarrow> string list \<Rightarrow> os_state \<Rightarrow> error option \<times> os_state" where
  "delete_loop self path_parts st =
     (if path_parts = [] then (None, st)
      else
        (let directory = join self path_parts in
         case os_listdir st directory of
           Inl e \<Rightarrow> (Some e, st)
         | Inr names \<Rightarrow>
             if names \<noteq> [] then (None, st)
             else
               (case os_rmdir st directory of
                  (Some e, st') \<Rightarrow> (Some e, st')
                | (None, st') \<Rightarrow> delete_loop self (butlast path_parts) st')))"
  by pat_completeness auto
termination
  by (relation "measure (\<lambda>(self, path_parts, st). length path_parts)") auto

definition delete :: "host \<Rightarrow> filesystem \<Rightarrow> item \<Rightarrow> os_state \<Rightarrow> error option \<times> os_state" where
  "delete h self it st =
     (if corn it \<noteq> self then (Some AssertionError, st)
      else
        (case full_filename h it of
           Inl e \<Rightarrow> (Some e, st)
         | Inr fname \<Rightarrow>
             if \<not> startswith fname (root_dir self) then (Some AssertionError, st)
             else
               (case os_remove st fname of
                  (Some e, st') \<Rightarrow> (Some e, st')
                | (None, st') \<Rightarrow>
                    (case filename h it of
                       Inl e \<Rightarrow> (Some e, st')
                     | Inr f \<Rightarrow> delete_loop self (butlast (split_slash f)) st'))))"

subsection \<open>\<^verbatim>\<open>Filesystem._walk\<close>\<close>

definition match_part :: "filesystem \<Rightarrow> nat \<Rightarrow> string \<Rightarrow> error + (string \<times> string) list option" where
  "match_part self depth nm =
     (if depth < length (path_parts_re self) then
        (case re_match (path_parts_re self ! depth) nm of
           None \<Rightarrow> Inr None
         | Some m \<Rightarrow> Inr (Some (groupdict m)))
      else Inl (IndexError ''tuple index out of range''))"

definition create_item :: "filesystem \<Rightarrow> string \<Rightarrow> (string \<times> string) list \<Rightarrow> item" where
  "create_item self fname vals =
     create self vals [(content_property self, LazyFileReader fname (encoding self))]"

text \<open>
  What a generator does, in order: it yields a value or, once and last, raises. The
  events after a \<open>Raise\<close> never happen; \<open>generated\<close> cuts them off.
\<close>

datatype 'a event = Yield 'a | Raise error

fun generated :: "'a event list \<Rightarrow> 'a list \<times> error option" where
  "generated [] = ([], None)"
| "generated (Yield x # evs) = yield x (generated evs)"
| "generated (Raise e # evs) = ([], Some e)"

text \<open>
  \<^verbatim>\<open>_walk\<close>: the events of the generator. \<^verbatim>\<open>len(self._path_parts_re) - 1\<close> is an
  integer, so that no depth is the leaf depth of an access point without segments.
\<close>

function walk :: "filesystem \<Rightarrow> os_state \<Rightarrow> string list \<Rightarrow> (string \<times> string) list \<Rightarrow> item event list"
  where
  "walk self st path_parts previous_values =
     (let depth = length path_parts;
          is_leaf = (int depth = int (length (path_parts_re self)) - 1)
      in case os_listdir st (join self path_parts) of
           Inl e \<Rightarrow> [Raise e]
         | Inr names \<Rightarrow>
             concat (map (\<lambda>nm.
               case match_part self depth nm of
                 Inl e \<Rightarrow> [Raise e]
               | Inr None \<Rightarrow> []
               | Inr (Some new_values) \<Rightarrow>
                   (let vals = previous_values @ new_values;
                        new_path_parts = path_parts @ [nm];
                        fname = join self new_path_parts
                    in if is_leaf \<and> os_path_isfile st fname then
                         [Yield (create_item self fname vals)]
                       else if \<not> is_leaf \<and> os_path_isdir st fname then
                         walk self st new_path_parts vals
                       else [])) names))"
  by pat_completeness auto
termination
proof (relation "measure (\<lambda>(self, st, path_parts, previous_values).
                   length (path_parts_re self) - length path_parts)")
  show "wf (measure (\<lambda>(self, st, path_parts, previous_values).
              length (path_parts_re self) - length path_parts))"
    by simp
next
  fix self :: filesystem and st :: os_state and path_parts :: "string list"
    and previous_values :: "(string \<times> string) list" and depth is_leaf names nm x new_values
    and vals new_path_parts fname
  assume "depth = length path_parts"
    and "is_leaf = (int depth = int (length (path_parts_re self)) - 1)"
    and "match_part self depth nm = Inr x" and "x = Some new_values"
    and "new_path_parts = path_parts @ [nm]"
  then show "((self, st, new_path_parts, vals), (self, st, path_parts, previous_values))
      \<in> measure (\<lambda>(self, st, path_parts, previous_values).
           length (path_parts_re self) - length path_parts)"
    by (auto simp: match_part_def split: if_splits)
qed

definition all_items :: "filesystem \<Rightarrow> os_state \<Rightarrow> item list \<times> error option" where
  "all_items self st = generated (walk self st [] [])"

subsection \<open>What the walk is to yield\<close>

text \<open>
  The events of one entry of the directory listed: the body of the loop of \<^verbatim>\<open>_walk\<close>.
\<close>

definition entry_events ::
  "filesystem \<Rightarrow> os_state \<Rightarrow> string list \<Rightarrow> (string \<times> string) list \<Rightarrow> string \<Rightarrow> item event list"
  where
  "entry_events self st parts captured nm =
     (case match_part self (length parts) nm of
        Inl e \<Rightarrow> [Raise e]
      | Inr None \<Rightarrow> []
      | Inr (Some new_values) \<Rightarrow>
          if Suc (length parts) = length (path_parts_re self)
             \<and> os_path_isfile st (join self (parts @ [nm]))
          then [Yield (create_item self (join self (parts @ [nm])) (captured @ new_values))]
          else if Suc (length parts) \<noteq> length (path_parts_re self)
             \<and> os_path_isdir st (join self (parts @ [nm]))
          then walk self st (parts @ [nm]) (captured @ new_values)
          else [])"

text \<open>
  The enumeration as the specification describes it, with no reference to the walk nor
  to \<^verbatim>\<open>_create_item\<close>: from the directory at \<open>parts\<close>, with the values \<open>captured\<close> so
  far, the chain of entry names \<open>nm # below\<close> leads to the record \<open>it\<close> when \<open>nm\<close> is
  listed in the directory and the segment matcher of this depth matches it; at leaf depth
  the chain ends there, the entry is a regular file and the record is the one of this
  access point whose field values are the values captured by all the matchers down to
  this depth, merged into one dictionary of text values, and whose deferred content, under
  the name of the content field, is a reader of that file that has read nothing yet; above
  leaf depth the entry is a directory and the rest of the chain leads to the record from
  it.
\<close>

fun reaches ::
  "filesystem \<Rightarrow> os_state \<Rightarrow> string list \<Rightarrow> (string \<times> string) list \<Rightarrow> string list \<Rightarrow> item \<Rightarrow> bool"
  where
  "reaches self st parts captured [] it = False"
| "reaches self st parts captured (nm # below) it =
     ((case os_listdir st (join self parts) of Inl e \<Rightarrow> False | Inr names \<Rightarrow> nm \<in> set names)
      \<and> length parts < length (path_parts_re self)
      \<and> (case re_match (path_parts_re self ! length parts) nm of
           None \<Rightarrow> False
         | Some m \<Rightarrow>
             if Suc (length parts) = length (path_parts_re self)
             then below = [] \<and> os_path_isfile st (join self (parts @ [nm]))
                  \<and> it = \<lparr>corn = self,
                          item_values =
                            dict (map (\<lambda>(k, v). (k, PyUnicode v)) (captured @ groupdict m)),
                          lazy_values =
                            [(content_property self,
                              \<lparr>reader_filename = join self (parts @ [nm]),
                               reader_encoding = encoding self,
                               reader_content = None\<rparr>)]\<rparr>
             else os_path_isdir st (join self (parts @ [nm]))
                  \<and> reaches self st (parts @ [nm]) (captured @ groupdict m) below it))"

declare walk.simps [simp del]

subsection \<open>The round trip from values to a path and back\<close>

text \<open>
  Matching each component of a derived path with the segment matcher of its depth, from
  \<open>depth\<close> on, and merging the values captured, as \<^verbatim>\<open>_walk\<close> does with
  \<^verbatim>\<open>previous_values + new_values\<close>.
\<close>

fun match_components :: "filesystem \<Rightarrow> nat \<Rightarrow> string list \<Rightarrow> (string \<times> string) list option" where
  "match_components self depth [] = Some []"
| "match_components self depth (c # cs) =
     (case match_part self depth c of
        Inr (Some new_values) \<Rightarrow>
          map_option ((@) new_values) (match_components self (Suc depth) cs)
      | _ \<Rightarrow> None)"

text \<open>
  The tokens written back as a format string: a field in braces, a literal brace
  doubled. A pattern that is the \<open>unparse\<close> of its own tokens is one that
  \<^verbatim>\<open>_tokenize_pattern\<close> and \<^verbatim>\<open>str.format\<close> read alike.
\<close>

fun unparse :: "token list \<Rightarrow> string" where
  "unparse [] = []"
| "unparse (PathSeparator # toks) = CHR ''/'' # unparse toks"
| "unparse (Property n # toks) = CHR ''{'' # n @ CHR ''}'' # unparse toks"
| "unparse (Literal c # toks) =
     (if c = CHR ''{'' \<or> c = CHR ''}'' then c # c # unparse toks else c # unparse toks)"

text \<open>
  The record of an access point that holds the text \<open>w n\<close> for each identity property
  \<open>n\<close>, and nothing else.
\<close>

definition record_of :: "filesystem \<Rightarrow> (string \<Rightarrow> string) \<Rightarrow> item" where
  "record_of self w =
     \<lparr>corn = self, item_values = map (\<lambda>n. (n, PyUnicode (w n))) (identity_properties self),
      lazy_values = []\<rparr>"

text \<open>
  The order in which a greedy matcher prefers one reading of a component to another: at
  the first of the fields \<open>names\<close>, in the order of the pattern, where the values \<open>w\<close> and
  \<open>v\<close> differ, the value of \<open>w\<close> is the longer one.
\<close>

fun longer_first :: "(string \<Rightarrow> string) \<Rightarrow> (string \<Rightarrow> string) \<Rightarrow> string list \<Rightarrow> bool" where
  "longer_first w v [] = False"
| "longer_first w v (n # ns) =
     (length (v n) < length (w n) \<or> (w n = v n \<and> longer_first w v ns))"

text \<open>
  What the proofs read off a list of tokens: the field names in order, the atoms of a
  segment, the text that substituting \<open>vals\<close> gives, and the matchers that
  \<open>parse_loop\<close> ends with when it raises nothing. \<open>match_all\<close> matches a list of
  components with a list of matchers.
\<close>

fun field_names :: "token list \<Rightarrow> string list" where
  "field_names [] = []"
| "field_names (Property n # toks) = n # field_names toks"
| "field_names (t # toks) = field_names toks"

fun atoms :: "token list \<Rightarrow> re_atom list" where
  "atoms [] = []"
| "atoms (PathSeparator # toks) = atoms toks"
| "atoms (Property n # toks) = NamedGroup n # atoms toks"
| "atoms (Literal c # toks) = Escaped c # atoms toks"

fun subst :: "(string \<Rightarrow> string) \<Rightarrow> token list \<Rightarrow> string" where
  "subst vals [] = []"
| "subst vals (PathSeparator # toks) = CHR ''/'' # subst vals toks"
| "subst vals (Property n # toks) = vals n @ subst vals toks"
| "subst vals (Literal c # toks) = c # subst vals toks"

fun compile :: "re_atom list \<Rightarrow> token list \<Rightarrow> regex list" where
  "compile acc [] = []"
| "compile acc (PathSeparator # toks) = ([Caret] @ acc @ [Dollar]) # compile [] toks"
| "compile acc (Property n # toks) = compile (acc @ [NamedGroup n]) toks"
| "compile acc (Literal c # toks) = compile (acc @ [Escaped c]) toks"

fun match_all :: "regex list \<Rightarrow> string list \<Rightarrow> (string \<times> string) list option" where
  "match_all [] [] = Some []"
| "match_all (r # rs) (c # cs) =
     (case re_match r c of
        None \<Rightarrow> None
      | Some m \<Rightarrow> map_option ((@) (groupdict m)) (match_all rs cs))"
| "match_all rs cs = None"

text \<open>
  The values \<open>v\<close> are the reading that the greedy matchers prefer of the text they give
  in the tokens: no other values without slash and newline give the same text with a
  longer value at the first field where they differ from \<open>v\<close>.
\<close>

definition unambiguous :: "(string \<Rightarrow> string) \<Rightarrow> token list \<Rightarrow> bool" where
  "unambiguous v toks =
     (\<forall>w. (\<forall>n \<in> set (field_names toks). CHR ''/'' \<notin> set (w n) \<and> newline \<notin> set (w n))
          \<longrightarrow> subst w toks = subst v toks \<longrightarrow> \<not> longer_first w v (field_names toks))"

text \<open>A pattern in which no brace is followed by the same brace.\<close>

fun no_doubled_brace :: "string \<Rightarrow> bool" where
  "no_doubled_brace (c # d # rest) =
     (\<not> (c = d \<and> (c = CHR ''{'' \<or> c = CHR ''}'')) \<and> no_doubled_brace (d # rest))"
| "no_doubled_brace s = True"

subsection \<open>Concrete inputs\<close>

text \<open>
  A host whose codecs accept ASCII only and whose \<^verbatim>\<open>format\<close> knows no conversion;
  access points of root \<^verbatim>\<open>/data\<close>, each as \<open>Filesystem_init\<close> builds it from its
  pattern; the items of the first; and two states of the file system.
\<close>

definition simple_host :: host where
  "simple_host =
     \<lparr>format_field = (\<lambda>v spec. Inl (ValueError ''Invalid conversion specification'' [])),
      decode = (\<lambda>enc b. if list_all is_ascii b then Inr b else Inl UnicodeDecodeError),
      encode = (\<lambda>enc t. if list_all is_ascii t then Inr t else Inl UnicodeDecodeError)\<rparr>"

definition ab_corn :: filesystem where
  "ab_corn =
     \<lparr>name = ''files'', root_dir = ''/data'', pattern = ''{a}/{b}'', encoding = None,
      content_property = ''content'',
      path_parts_re = [[Caret, NamedGroup ''a'', Dollar], [Caret, NamedGroup ''b'', Dollar]],
      identity_properties = [''a'', ''b''],
      properties = [(''a'', \<lparr>type_type = unicode, type_name = ''files''\<rparr>),
                    (''b'', \<lparr>type_type = unicode, type_name = ''files''\<rparr>),
                    (''content'', \<lparr>type_type = bytes, type_name = ''content''\<rparr>)]\<rparr>"

definition ab_item :: "string \<Rightarrow> string \<Rightarrow> item" where
  "ab_item a b = \<lparr>corn = ab_corn,
     item_values = [(''a'', PyUnicode a), (''b'', PyUnicode b), (''content'', PyStr ''hello'')],
     lazy_values = []\<rparr>"



definition empty_root :: os_state where
  "empty_root = \<lparr>tree = Dir [(''data'', Dir [])], read_log = []\<rparr>"

definition diary :: os_state where
  "diary = \<lparr>tree = Dir [(''data'', Dir [(''2024'', Dir [(''03-01.txt'', File ''hello''),
       (''notes.txt'', File [CHR 0xFF])])])], read_log = []\<rparr>"

definition diary_corn :: filesystem where
  "diary_corn =
     \<lparr>name = ''diary'', root_dir = ''/data'', pattern = ''{year}/{month}-{day}.txt'',
      encoding = None, content_property = ''content'',
      path_parts_re = [[Caret, NamedGroup ''year'', Dollar],
         [Caret, NamedGroup ''month'', Escaped CHR ''-'', NamedGroup ''day'',
          Escaped CHR ''.'', Escaped CHR ''t'', Escaped CHR ''x'', Escaped CHR ''t'', Dollar]],
      identity_properties = [''year'', ''month'', ''day''],
      properties = [(''year'', \<lparr>type_type = unicode, type_name = ''diary''\<rparr>),
                    (''month'', \<lparr>type_type = unicode, type_name = ''diary''\<rparr>),
                    (''day'', \<lparr>type_type = unicode, type_name = ''diary''\<rparr>),
                    (''content'', \<lparr>type_type = bytes, type_name = ''content''\<rparr>)]\<rparr>"

definition braces_corn :: filesystem where
  "braces_corn =
     \<lparr>name = ''files'', root_dir = ''/data'', pattern = ''a{{b}}-{x}/{y}.txt'',
      encoding = None, content_property = ''content'',
      path_parts_re = [[Caret, Escaped CHR ''a'', Escaped CHR ''{'', Escaped CHR ''b'',
          Escaped CHR ''}'', Escaped CHR ''-'', NamedGroup ''x'', Dollar],
         [Caret, NamedGroup ''y'', Escaped CHR ''.'', Escaped CHR ''t'', Escaped CHR ''x'',
          Escaped CHR ''t'', Dollar]],
      identity_properties = [''x'', ''y''],
      properties = [(''x'', \<lparr>type_type = unicode, type_name = ''files''\<rparr>),
                    (''y'', \<lparr>type_type = unicode, type_name = ''files''\<rparr>),
                    (''content'', \<lparr>type_type = bytes, type_name = ''content''\<rparr>)]\<rparr>"

definition dash_corn :: filesystem where
  "dash_corn =
     \<lparr>name = ''files'', root_dir = ''/data'', pattern = ''{a}-{b}'', encoding = None,
      content_property = ''content'',
      path_parts_re = [[Caret, NamedGroup ''a'', Escaped CHR ''-'', NamedGroup ''b'', Dollar]],
      identity_properties = [''a'', ''b''],
      properties = [(''a'', \<lparr>type_type = unicode, type_name = ''files''\<rparr>),
                    (''b'', \<lparr>type_type = unicode, type_name = ''files''\<rparr>),
                    (''content'', \<lparr>type_type = bytes, type_name = ''content''\<rparr>)]\<rparr>"

section \<open>Properties\<close>

lemmas pattern_simps = parse_pattern_def tokenize_pattern_def yield_def isidentifier_def
  is_name_char_def is_alpha_def is_digit_def

lemma ab_corn_init: "Filesystem_init ''files'' ''/data'' ''{a}/{b}'' None ''content'' = Inr ab_corn"
  by code_simp

subsection \<open>Compiling patterns\<close>

text \<open>
  C6. Compiling \<^verbatim>\<open>{year}/{month}-{day}.txt\<close> gives exactly two segment matchers and the
  three distinct field names year, month, day in declaration order; compiling
  \<^verbatim>\<open>{a}/{a}.txt\<close> fails with the duplicate-name error.
\<close>

theorem parse_pattern_examples:
  "parse_pattern ''{year}/{month}-{day}.txt'' =
     Inr ([[Caret, NamedGroup ''year'', Dollar],
           [Caret, NamedGroup ''month'', Escaped CHR ''-'', NamedGroup ''day'',
            Escaped CHR ''.'', Escaped CHR ''t'', Escaped CHR ''x'', Escaped CHR ''t'', Dollar]],
          [''year'', ''month'', ''day''])
   \<and> distinct [''year'', ''month'', ''day'']
   \<and> parse_pattern ''{a}/{a}.txt'' =
     Inl (ValueError ''Property name %r appears more than once in the pattern %r.''
            [''a'', ''{a}/{a}.txt''])"
  by (simp add: pattern_simps)

text \<open>
  C4. A doubled brace followed by a single opening brace: the tokenizer looks one
  character back and one ahead instead of consuming the pair, so in \<^verbatim>\<open>{{{x}\<close> the third
  brace is taken for the escaped one, no field is opened and the closing brace is
  rejected; in \<^verbatim>\<open>{{{{\<close> two doubled braces give one literal brace. \<^verbatim>\<open>str.format\<close>, which
  derives the paths from the same pattern, reads a literal brace and the field x, and two
  literal braces.
\<close>

theorem tokenize_three_braces:
  "tokenize_pattern ''{{{x}'' =
     ([Literal CHR ''{'', Literal CHR ''x''],
      Some (ValueError ''Single '}' encountered in format string'' []))
   \<and> parse_pattern ''{{{x}'' = Inl (ValueError ''Single '}' encountered in format string'' [])
   \<and> tokenize_pattern ''{{{{'' = ([Literal CHR ''{'', PathSeparator], None)
   \<and> str_format simple_host ''{{{x}'' [''x'' \<mapsto> ''v''] = Inr ''{v''
   \<and> str_format simple_host ''{{{{'' Map.empty = Inr ''{{''"
  by (simp add: pattern_simps str_format_def render_field_def ends_name_def)

text \<open>
  The example of the same claim holds: \<^verbatim>\<open>a{{b}}c/{x}\<close> compiles, and its first segment
  is the literal text \<^verbatim>\<open>a{b}c\<close>.
\<close>

lemma escaped_braces_example:
  "parse_pattern ''a{{b}}c/{x}'' =
     Inr ([[Caret, Escaped CHR ''a'', Escaped CHR ''{'', Escaped CHR ''b'', Escaped CHR ''}'',
            Escaped CHR ''c'', Dollar], [Caret, NamedGroup ''x'', Dollar]], [''x''])"
  by (simp add: pattern_simps)

text \<open>
  C7. The matcher compiled for the pattern \<^verbatim>\<open>abc\<close> accepts the component made of
  \<^verbatim>\<open>abc\<close> and a newline, and what it matches is \<^verbatim>\<open>abc\<close>, a proper prefix of the
  component: \<^verbatim>\<open>$\<close> also matches before a final newline. In the same way
  \<^verbatim>\<open>_match_part\<close> takes an entry named \<^verbatim>\<open>03-01.txt\<close> and a newline for the record of
  \<^verbatim>\<open>03-01.txt\<close>.
\<close>

theorem dollar_before_newline:
  "parse_pattern ''abc'' =
     Inr ([[Caret, Escaped CHR ''a'', Escaped CHR ''b'', Escaped CHR ''c'', Dollar]], [])
   \<and> re_match [Caret, Escaped CHR ''a'', Escaped CHR ''b'', Escaped CHR ''c'', Dollar]
        (''abc'' @ [newline]) = Some \<lparr>group0 = ''abc'', groupdict = []\<rparr>
   \<and> ''abc'' \<noteq> ''abc'' @ [newline]
   \<and> match_part diary_corn 1 (''03-01.txt'' @ [newline]) =
        Inr (Some [(''month'', ''03''), (''day'', ''01'')])"
  by code_simp

subsection \<open>\<^verbatim>\<open>register\<close>\<close>

lemma setitem_keys: "fst ` set (setitem k v d) = insert k (fst ` set d)"
proof (induction d)
  case Nil
  show ?case by simp
next
  case (Cons e d)
  obtain k' w where e: "e = (k', w)" by (cases e)
  show ?case
  proof (cases "k' = k")
    case True
    with e show ?thesis by simp
  next
    case False
    with e Cons.IH show ?thesis by (simp add: insert_commute)
  qed
qed

lemma fold_setitem_keys:
  "fst ` set (properties (fold (\<lambda>p s. s\<lparr>properties := setitem p ty (properties s)\<rparr>) props s)) =
     fst ` set (properties s) \<union> set props"
  by (induction props arbitrary: s) (simp_all add: setitem_keys)

lemma fold_setitem_identity:
  "identity_properties (fold (\<lambda>p s. s\<lparr>properties := setitem p ty (properties s)\<rparr>) props s) =
     identity_properties s"
  by (induction props arbitrary: s) auto

text \<open>
  C10. On an access point that \<open>Filesystem_init\<close> has built, \<open>register\<close> raises the
  \<^verbatim>\<open>TypeError\<close> whatever its arguments and leaves the access point as it was: its
  properties are the field names of the pattern and the content property.
\<close>

theorem register_raises_TypeError:
  assumes "Filesystem_init nm rd pat enc cp = Inr self"
  shows "register self n kwargs =
           (Some (TypeError ''Filesystem does not take extra properties.''), self)
       \<and> fst ` set (properties (snd (register self n kwargs))) =
           set (identity_properties self) \<union> {cp}
       \<and> (\<exists>res. parse_pattern pat = Inr (res, identity_properties self))"
proof -
  from assms obtain res props where p: "parse_pattern pat = Inr (res, props)"
    by (auto simp: Filesystem_init_def split: sum.splits)
  from assms p have ids: "identity_properties self = props"
    by (auto simp: Filesystem_init_def Let_def AbstractCorn_init_def fold_setitem_identity)
  define s1 where "s1 = fold (\<lambda>property_name s.
        s\<lparr>properties := setitem property_name \<lparr>type_type = unicode, type_name = nm\<rparr>
                          (properties s)\<rparr>) props
      (AbstractCorn_init nm props
         \<lparr>name = [], root_dir = rd, pattern = pat, encoding = enc, content_property = cp,
          path_parts_re = res, identity_properties = [], properties = []\<rparr>)"
  from assms p have self: "self = s1\<lparr>properties :=
      setitem cp \<lparr>type_type = (if enc = None then bytes else unicode), type_name = cp\<rparr>
        (properties s1)\<rparr>"
    by (simp add: Filesystem_init_def Let_def s1_def)
  have "fst ` set (properties s1) = set props"
    unfolding s1_def by (simp add: fold_setitem_keys AbstractCorn_init_def)
  then have "fst ` set (properties self) = set props \<union> {cp}"
    by (simp add: self setitem_keys)
  with ids p show ?thesis by (simp add: register_def)
qed

theorem register_raises_TypeError_witness:
  "Filesystem_init ''files'' ''/data'' ''{a}/{b}'' None ''content'' = Inr ab_corn
   \<and> register ab_corn ''extra'' [(''type'', PyObject)] =
       (Some (TypeError ''Filesystem does not take extra properties.''), ab_corn)
   \<and> fst ` set (properties (snd (register ab_corn ''extra'' [(''type'', PyObject)]))) =
       {''a'', ''b'', ''content''}"
  using register_raises_TypeError [OF ab_corn_init, of "''extra''" "[(''type'', PyObject)]"]
    ab_corn_init
  by (simp add: ab_corn_def insert_commute)

subsection \<open>Values with a slash\<close>





subsection \<open>The deferred content\<close>

lemma cached_call: "reader_content r = Some c \<Longrightarrow> reader_call h r st = (Inr c, r, st)"
  by (simp add: reader_call_def)

lemma cached_requests:
  "reader_content r = Some c \<Longrightarrow> request_times h n r st = (replicate n (Inr c), r, st)"
  by (induction n) (simp_all add: cached_call)

lemma first_call_caches:
  assumes "reader_call h (LazyFileReader f enc) st = (Inr c, r, st')"
  shows "reader_content r = Some c"
  using assms
  by (auto simp: reader_call_def LazyFileReader_def split: sum.splits option.splits prod.splits)

text \<open>
  C9, as the code has it. Once a request has returned the content, the file has been
  read once: that request read the whole file, as bytes with no encoding and decoded
  with the encoding otherwise, and every later request, whatever the file system has
  become, returns the same value and reads nothing.
\<close>

theorem content_cached_after_first_read:
  assumes "reader_call h (LazyFileReader f enc) st = (Inr c, r, st')"
  shows "read_log st' = read_log st @ [f] \<and> tree st' = tree st
       \<and> (\<exists>b. stat st f = Some (File b)
              \<and> (case enc of None \<Rightarrow> c = Bytes b
                  | Some e \<Rightarrow> (\<exists>t. decode h e b = Inr t \<and> c = Text t)))
       \<and> (\<forall>st2. reader_call h r st2 = (Inr c, r, st2))
       \<and> (\<forall>n. request_times h (Suc n) (LazyFileReader f enc) st
                = (replicate (Suc n) (Inr c), r, st'))"
proof -
  have cached: "reader_content r = Some c" using assms by (rule first_call_caches)
  have log: "read_log st' = read_log st @ [f] \<and> tree st' = tree st
       \<and> (\<exists>b. stat st f = Some (File b)
              \<and> (case enc of None \<Rightarrow> c = Bytes b
                  | Some e \<Rightarrow> (\<exists>t. decode h e b = Inr t \<and> c = Text t)))"
    using assms
    by (auto simp: reader_call_def LazyFileReader_def read_file_def
        split: sum.splits option.splits prod.splits node.splits)
  have later: "\<forall>st2. reader_call h r st2 = (Inr c, r, st2)"
    using cached by (simp add: cached_call)
  have many: "\<forall>n. request_times h (Suc n) (LazyFileReader f enc) st
                = (replicate (Suc n) (Inr c), r, st')"
    using assms cached by (simp add: cached_requests)
  from log later many show ?thesis by blast
qed

theorem content_cached_after_first_read_witness:
  "reader_call simple_host (LazyFileReader ''/data/2024/03-01.txt'' None) diary =
     (Inr (Bytes ''hello''),
      \<lparr>reader_filename = ''/data/2024/03-01.txt'', reader_encoding = None,
       reader_content = Some (Bytes ''hello'')\<rparr>,
      diary\<lparr>read_log := [''/data/2024/03-01.txt'']\<rparr>)
   \<and> request_times simple_host 3 (LazyFileReader ''/data/2024/03-01.txt'' None) diary =
     ([Inr (Bytes ''hello''), Inr (Bytes ''hello''), Inr (Bytes ''hello'')],
      \<lparr>reader_filename = ''/data/2024/03-01.txt'', reader_encoding = None,
       reader_content = Some (Bytes ''hello'')\<rparr>,
      diary\<lparr>read_log := [''/data/2024/03-01.txt'']\<rparr>)"
proof -
  have first: "reader_call simple_host (LazyFileReader ''/data/2024/03-01.txt'' None) diary =
     (Inr (Bytes ''hello''),
      \<lparr>reader_filename = ''/data/2024/03-01.txt'', reader_encoding = None,
       reader_content = Some (Bytes ''hello'')\<rparr>,
      diary\<lparr>read_log := [''/data/2024/03-01.txt'']\<rparr>)"
    by (simp add: reader_call_def LazyFileReader_def read_file_def stat_def resolve_def diary_def)
  from content_cached_after_first_read [OF first] have
    "request_times simple_host (Suc 2) (LazyFileReader ''/data/2024/03-01.txt'' None) diary =
       (replicate (Suc 2) (Inr (Bytes ''hello'')),
        \<lparr>reader_filename = ''/data/2024/03-01.txt'', reader_encoding = None,
         reader_content = Some (Bytes ''hello'')\<rparr>,
        diary\<lparr>read_log := [''/data/2024/03-01.txt'']\<rparr>)"
    by blast
  with first show ?thesis by (simp add: numeral_3_eq_3)
qed

text \<open>
  C9, as stated, fails: a file that the encoding cannot decode is read by every request,
  since a request that raises caches nothing. Two requests read it twice.
\<close>

theorem undecodable_file_read_twice:
  "request_times simple_host 2 (LazyFileReader ''/data/2024/notes.txt'' (Some ''ascii'')) diary =
     ([Inl UnicodeDecodeError, Inl UnicodeDecodeError],
      LazyFileReader ''/data/2024/notes.txt'' (Some ''ascii''),
      diary\<lparr>read_log := [''/data/2024/notes.txt'', ''/data/2024/notes.txt'']\<rparr>)"
  by (simp add: numeral_2_eq_2 reader_call_def LazyFileReader_def read_file_def stat_def
      resolve_def diary_def simple_host_def is_ascii_def)

subsection \<open>\<^verbatim>\<open>save\<close> and \<^verbatim>\<open>delete\<close>\<close>

text \<open>
  C2. The record of \<^verbatim>\<open>{a}/{b}\<close> whose field a is the empty text: \<open>save\<close> writes
  \<^verbatim>\<open>/data/y\<close> into the empty root, and \<open>delete\<close> removes it, then lists
  \<^verbatim>\<open>os.path.join('/data', '')\<close>, which is the root itself, finds it empty and removes it.
\<close>

theorem delete_removes_root:
  "save simple_host ab_corn (ab_item '''' ''y'') empty_root =
     (None, \<lparr>tree = Dir [(''data'', Dir [(''y'', File ''hello'')])], read_log = []\<rparr>)
   \<and> delete simple_host ab_corn (ab_item '''' ''y'')
       \<lparr>tree = Dir [(''data'', Dir [(''y'', File ''hello'')])], read_log = []\<rparr> =
     (None, \<lparr>tree = Dir [], read_log = []\<rparr>)"
  by code_simp

lemma split_slash_no_slash: "b \<in> set (split_slash s) \<Longrightarrow> CHR ''/'' \<notin> set b"
  by (induction s arbitrary: b) (auto split: if_splits list.splits)

lemma startswith_slash: "startswith b ''/'' \<Longrightarrow> CHR ''/'' \<in> set b"
  by (cases b) (auto simp: startswith_def)

lemma startswith_append: "startswith (p @ rest) p"
  by (simp add: startswith_def)

lemma startswith_trans: "startswith q p \<Longrightarrow> startswith r q \<Longrightarrow> startswith r p"
  unfolding startswith_def
  by (metis append_take_drop_id append.assoc append_eq_conv_conj)

lemma os_path_join_prefix:
  "\<forall>b \<in> set p. \<not> startswith b ''/'' \<Longrightarrow> startswith (os_path_join path p) path"
proof (induction p arbitrary: path)
  case Nil
  then show ?case by (simp add: startswith_def)
next
  case (Cons b p)
  let ?next = "if path = [] \<or> endswith path ''/'' then path @ b else path @ ''/'' @ b"
  have step: "startswith ?next path"
    using startswith_append [of path] by (simp del: append.simps)
  have "startswith (os_path_join ?next p) ?next"
    using Cons.prems by (intro Cons.IH) simp
  moreover have "os_path_join path (b # p) = os_path_join ?next p"
    using Cons.prems by simp
  ultimately show ?case using step startswith_trans by metis
qed

text \<open>
  The assertion of \<open>save\<close> and \<open>delete\<close> compares text: every path that
  \<open>full_filename\<close> derives starts with the root directory, so the assertion never fails.
\<close>

lemma full_filename_under_root_dir:
  assumes "full_filename h it = Inr f"
  shows "startswith f (root_dir (corn it))"
proof -
  from assms obtain g where f: "f = os_path_join (root_dir (corn it)) (split_slash g)"
    by (auto simp: full_filename_def split: sum.splits)
  have "\<forall>b \<in> set (split_slash g). \<not> startswith b ''/''"
    using split_slash_no_slash startswith_slash by blast
  from os_path_join_prefix [OF this] f show ?thesis by simp
qed

text \<open>
  C3. The record of \<^verbatim>\<open>{a}/{b}\<close> whose field a is \<^verbatim>\<open>..\<close>: the path derived,
  \<^verbatim>\<open>/data/../x\<close>, starts with the root directory, the assertion passes, and \<open>save\<close>
  writes the file \<^verbatim>\<open>/x\<close>, beside the root and not under it.
\<close>

theorem save_outside_root:
  "full_filename simple_host (ab_item ''..'' ''x'') = Inr ''/data/../x''
   \<and> startswith ''/data/../x'' (root_dir ab_corn)
   \<and> save simple_host ab_corn (ab_item ''..'' ''x'') empty_root =
       (None, \<lparr>tree = Dir [(''data'', Dir []), (''x'', File ''hello'')], read_log = []\<rparr>)"
  by code_simp

subsection \<open>Enumeration\<close>

lemma diary_corn_init:
  "Filesystem_init ''diary'' ''/data'' ''{year}/{month}-{day}.txt'' None ''content'' =
     Inr diary_corn"
  by code_simp

lemma isdir_listdir: "os_path_isdir st p \<Longrightarrow> \<exists>names. os_listdir st p = Inr names"
  by (auto simp: os_path_isdir_def os_listdir_def split: option.splits node.splits)

lemma is_leaf_iff: "(int d = int n - 1) = (Suc d = n)"
  by auto

lemma walk_unfold:
  "walk self st parts captured =
     (case os_listdir st (join self parts) of
        Inl e \<Rightarrow> [Raise e]
      | Inr names \<Rightarrow> concat (map (entry_events self st parts captured) names))"
  apply (subst walk.simps)
  apply (simp only: Let_def is_leaf_iff entry_events_def [abs_def])
  done

lemma create_item_record:
  "create_item self fname vals =
     \<lparr>corn = self, item_values = dict (map (\<lambda>(k, v). (k, PyUnicode v)) vals),
      lazy_values = [(content_property self,
         \<lparr>reader_filename = fname, reader_encoding = encoding self, reader_content = None\<rparr>)]\<rparr>"
  by (simp add: create_item_def create_def LazyFileReader_def)

text \<open>
  Merging: the dictionary of a list of pairs gives each key the value of its last pair.
\<close>

lemma map_of_setitem: "map_of (setitem k v d) = (map_of d)(k \<mapsto> v)"
  by (induction d) auto

lemma fold_setitem_lookup:
  "map_of (fold (\<lambda>(k, v). setitem k v) pairs acc) = map_of acc ++ map_of (rev pairs)"
proof (induction pairs arbitrary: acc)
  case Nil
  then show ?case by simp
next
  case (Cons p pairs)
  obtain k v where p: "p = (k, v)" by (cases p)
  have "map_of (fold (\<lambda>(k, v). setitem k v) (p # pairs) acc) =
      map_of (setitem k v acc) ++ map_of (rev pairs)"
    using Cons.IH [of "setitem k v acc"] p by simp
  also have "\<dots> = map_of acc ++ map_of (rev (p # pairs))"
    by (rule ext) (simp add: p map_of_setitem map_add_def split: option.splits)
  finally show ?case .
qed

lemma dict_lookup: "map_of (dict pairs) k = map_of (rev pairs) k"
  by (simp add: dict_def fold_setitem_lookup)

lemma walk_yields:
  assumes "length parts < length (path_parts_re self)"
  shows "(Yield it \<in> set (walk self st parts captured)) =
         (\<exists>chain. reaches self st parts captured chain it)"
  using assms
proof (induction "length (path_parts_re self) - length parts" arbitrary: parts captured)
  case 0
  then show ?case by simp
next
  case (Suc k)
  have entry: "(Yield it \<in> set (entry_events self st parts captured nm)) =
      (\<exists>m. re_match (path_parts_re self ! length parts) nm = Some m
         \<and> (if Suc (length parts) = length (path_parts_re self)
             then os_path_isfile st (join self (parts @ [nm]))
                  \<and> it = \<lparr>corn = self,
                          item_values =
                            dict (map (\<lambda>(k, v). (k, PyUnicode v)) (captured @ groupdict m)),
                          lazy_values =
                            [(content_property self,
                              \<lparr>reader_filename = join self (parts @ [nm]),
                               reader_encoding = encoding self,
                               reader_content = None\<rparr>)]\<rparr>
             else os_path_isdir st (join self (parts @ [nm]))
                  \<and> (\<exists>below. reaches self st (parts @ [nm]) (captured @ groupdict m) below it)))"
    for nm
  proof (cases "re_match (path_parts_re self ! length parts) nm")
    case None
    with Suc.prems show ?thesis by (simp add: entry_events_def match_part_def)
  next
    case (Some m)
    show ?thesis
    proof (cases "Suc (length parts) = length (path_parts_re self)")
      case True
      with Some Suc.prems show ?thesis
        by (auto simp: entry_events_def match_part_def create_item_record)
    next
      case False
      with Suc.prems have deeper: "length (parts @ [nm]) < length (path_parts_re self)"
        by simp
      from Suc.hyps(2) have "k = length (path_parts_re self) - length (parts @ [nm])"
        by simp
      from Suc.hyps(1) [OF this deeper, of "captured @ groupdict m"]
      have "(Yield it \<in> set (walk self st (parts @ [nm]) (captured @ groupdict m))) =
          (\<exists>below. reaches self st (parts @ [nm]) (captured @ groupdict m) below it)" .
      with Some False Suc.prems show ?thesis
        by (simp add: entry_events_def match_part_def)
    qed
  qed
  show ?case
  proof (cases "os_listdir st (join self parts)")
    case (Inl e)
    have "\<not> reaches self st parts captured chain it" for chain
      using Inl by (cases chain) simp_all
    with Inl show ?thesis by (simp add: walk_unfold)
  next
    case (Inr names)
    have one: "(\<exists>below. reaches self st parts captured (nm # below) it) =
        (nm \<in> set names \<and> Yield it \<in> set (entry_events self st parts captured nm))" for nm
      using Inr Suc.prems
      by (cases "Suc (length parts) = length (path_parts_re self)")
        (auto simp: entry split: option.splits)
    have "(\<exists>chain. reaches self st parts captured chain it) =
        (\<exists>nm below. reaches self st parts captured (nm # below) it)"
      by (metis reaches.simps(1) list.exhaust)
    also have "\<dots> = (\<exists>nm \<in> set names. Yield it \<in> set (entry_events self st parts captured nm))"
      using one by blast
    finally show ?thesis using Inr by (simp add: walk_unfold)
  qed
qed

lemma walk_raises:
  assumes "length parts < length (path_parts_re self)"
  shows "(Raise e \<in> set (walk self st parts captured)) = (os_listdir st (join self parts) = Inl e)"
  using assms
proof (induction "length (path_parts_re self) - length parts" arbitrary: parts captured)
  case 0
  then show ?case by simp
next
  case (Suc k)
  have entry: "Raise e \<notin> set (entry_events self st parts captured nm)" for nm
  proof (cases "re_match (path_parts_re self ! length parts) nm")
    case None
    with Suc.prems show ?thesis by (simp add: entry_events_def match_part_def)
  next
    case (Some m)
    show ?thesis
    proof (cases "Suc (length parts) \<noteq> length (path_parts_re self)
        \<and> os_path_isdir st (join self (parts @ [nm]))")
      case True
      with Suc.prems have deeper: "length (parts @ [nm]) < length (path_parts_re self)"
        by simp
      from Suc.hyps(2) have "k = length (path_parts_re self) - length (parts @ [nm])"
        by simp
      from Suc.hyps(1) [OF this deeper, of "captured @ groupdict m"] True
      have "Raise e \<notin> set (walk self st (parts @ [nm]) (captured @ groupdict m))"
        using isdir_listdir by fastforce
      with Some True Suc.prems show ?thesis
        by (simp add: entry_events_def match_part_def)
    next
      case False
      with Some Suc.prems show ?thesis
        by (auto simp: entry_events_def match_part_def)
    qed
  qed
  show ?case
    by (cases "os_listdir st (join self parts)") (auto simp: walk_unfold entry)
qed

text \<open>
  C5. At a depth that has a segment matcher, the walk yields exactly the records that
  the chains of matching entries lead to: an entry whose name does not match is skipped;
  at leaf depth only a regular file is yielded, as the record whose field values are the
  values captured by all the matchers down to that depth, merged into one dictionary,
  and whose content is a reader of that file; above leaf depth only a directory is
  descended into. The only exception the walk raises is that of listing the directory it
  starts from: no entry, matching or not, raises.
\<close>

theorem walk_yields_matching_files:
  assumes "length parts < length (path_parts_re self)"
  shows "(Yield it \<in> set (walk self st parts captured)) =
           (\<exists>chain. reaches self st parts captured chain it)
       \<and> (Raise e \<in> set (walk self st parts captured)) =
           (os_listdir st (join self parts) = Inl e)"
  using walk_yields [OF assms] walk_raises [OF assms] by simp

theorem walk_yields_matching_files_witness:
  "length ([] :: string list) < length (path_parts_re diary_corn)
   \<and> walk diary_corn diary [] [] =
       [Yield \<lparr>corn = diary_corn,
               item_values = [(''year'', PyUnicode ''2024''), (''month'', PyUnicode ''03''),
                              (''day'', PyUnicode ''01'')],
               lazy_values = [(''content'',
                  \<lparr>reader_filename = ''/data/2024/03-01.txt'', reader_encoding = None,
                   reader_content = None\<rparr>)]\<rparr>]
   \<and> (\<exists>chain. reaches diary_corn diary [] [] chain
         \<lparr>corn = diary_corn,
          item_values = [(''year'', PyUnicode ''2024''), (''month'', PyUnicode ''03''),
                         (''day'', PyUnicode ''01'')],
          lazy_values = [(''content'',
             \<lparr>reader_filename = ''/data/2024/03-01.txt'', reader_encoding = None,
              reader_content = None\<rparr>)]\<rparr>)
   \<and> reaches diary_corn diary [] [] [''2024'', ''03-01.txt'']
         \<lparr>corn = diary_corn,
          item_values = [(''year'', PyUnicode ''2024''), (''month'', PyUnicode ''03''),
                         (''day'', PyUnicode ''01'')],
          lazy_values = [(''content'',
             \<lparr>reader_filename = ''/data/2024/03-01.txt'', reader_encoding = None,
              reader_content = None\<rparr>)]\<rparr>
   \<and> os_listdir diary (join diary_corn []) \<noteq> Inl (OSError ''ENOENT'')"
proof -
  let ?it = "\<lparr>corn = diary_corn,
      item_values = [(''year'', PyUnicode ''2024''), (''month'', PyUnicode ''03''),
                     (''day'', PyUnicode ''01'')],
      lazy_values = [(''content'',
         \<lparr>reader_filename = ''/data/2024/03-01.txt'', reader_encoding = None,
          reader_content = None\<rparr>)]\<rparr>"
  have depth: "length ([] :: string list) < length (path_parts_re diary_corn)"
    by (simp add: diary_corn_def)
  have events: "walk diary_corn diary [] [] = [Yield ?it]"
    by code_simp
  from walk_yields_matching_files [OF depth, of ?it diary "[]" "OSError ''ENOENT''"] events
  have "(\<exists>chain. reaches diary_corn diary [] [] chain ?it)
      \<and> os_listdir diary (join diary_corn []) \<noteq> Inl (OSError ''ENOENT'')"
    by simp
  moreover have "reaches diary_corn diary [] [] [''2024'', ''03-01.txt''] ?it"
    by code_simp
  ultimately show ?thesis using depth events by simp
qed

subsection \<open>The round trip\<close>

lemma atoms_append: "atoms (a @ b) = atoms a @ atoms b"
  by (induction a rule: atoms.induct) auto
lemma fields_append: "field_names (a @ b) = field_names a @ field_names b"
  by (induction a rule: field_names.induct) auto
lemma subst_append: "subst vals (a @ b) = subst vals a @ subst vals b"
  by (induction vals a rule: subst.induct) auto

lemma parse_loop_result:
  "parse_loop pat props parts next_re tt toks = Inr (props', parts', tt') \<Longrightarrow>
     props' = props @ field_names toks \<and> parts' = parts @ compile next_re toks
     \<and> (\<forall>n \<in> set (field_names toks). isidentifier n)
     \<and> tt' = (if toks = [] then tt else Some (last toks))"
proof (induction pat props parts next_re tt toks rule: parse_loop.induct)
  case (1 pattern props parts next_re token_type)
  then show ?case by simp
next
  case (2 pattern props parts next_re token_type toks)
  then show ?case by (auto split: if_splits)
next
  case (3 pattern props parts next_re token_type name toks)
  then show ?case by (auto split: if_splits)
next
  case (4 pattern props parts next_re token_type c toks)
  then show ?case by (auto split: if_splits)
qed

lemma parse_loop_distinct:
  "parse_loop pat props parts next_re tt toks = Inr (props', parts', tt') \<Longrightarrow>
     distinct props \<Longrightarrow> distinct props'"
  by (induction pat props parts next_re tt toks rule: parse_loop.induct)
    (auto split: if_splits)

lemma first_some_found:
  "k0 \<le> n \<Longrightarrow> f k0 = Some r \<Longrightarrow> (\<forall>k. k0 < k \<and> k \<le> n \<longrightarrow> f k = None) \<Longrightarrow> first_some f n = Some r"
proof (induction n)
  case 0
  then show ?case by simp
next
  case (Suc n)
  show ?case
  proof (cases "k0 = Suc n")
    case True
    with Suc.prems show ?thesis by simp
  next
    case False
    with Suc.prems have "k0 \<le> n" by simp
    moreover from Suc.prems False have "f (Suc n) = None" by simp
    moreover from Suc.prems have "\<forall>k. k0 < k \<and> k \<le> n \<longrightarrow> f k = None" by simp
    ultimately show ?thesis using Suc.IH Suc.prems(2) by simp
  qed
qed

lemma first_some_witness:
  "first_some f n = Some r \<Longrightarrow> \<exists>k \<le> n. f k = Some r"
proof (induction n)
  case 0
  then show ?case by simp
next
  case (Suc n)
  show ?case
  proof (cases "f (Suc n)")
    case None
    with Suc.prems have "first_some f n = Some r" by simp
    from Suc.IH [OF this] show ?thesis by (meson le_Suc_eq)
  next
    case (Some a)
    with Suc.prems show ?thesis by auto
  qed
qed

lemma dot_run_ge:
  assumes "newline \<notin> set v"
  shows "length v \<le> dot_run (v @ l)"
proof -
  have "takeWhile (\<lambda>c. c \<noteq> newline) (v @ l) = v @ takeWhile (\<lambda>c. c \<noteq> newline) l"
    by (rule takeWhile_append2) (use assms in auto)
  then show ?thesis by (simp add: dot_run_def)
qed

lemma dot_run_le: "dot_run s \<le> length s"
  by (simp add: dot_run_def length_takeWhile_le)

lemma subst_cong:
  "(\<forall>n \<in> set (field_names toks). w n = v n) \<Longrightarrow> subst w toks = subst v toks"
  by (induction w toks rule: subst.induct) auto

lemma longer_first_cong:
  "(\<forall>n \<in> set ns. w n = w' n) \<Longrightarrow> longer_first w v ns = longer_first w' v ns"
  by (induction ns) auto

lemma longer_first_same_prefix:
  "(\<forall>n \<in> set xs. w n = v n) \<Longrightarrow> longer_first w v (xs @ ys) = longer_first w v ys"
  by (induction xs) auto

lemma longer_first_append: "longer_first w v xs \<Longrightarrow> longer_first w v (xs @ ys)"
  by (induction xs) auto

lemma unambiguous_append:
  assumes "distinct (field_names (a @ b))"
    and "\<forall>n \<in> set (field_names (a @ b)). CHR ''/'' \<notin> set (v n) \<and> newline \<notin> set (v n)"
    and "unambiguous v (a @ b)"
  shows "unambiguous v a \<and> unambiguous v b"
proof
  from assms(1) have disj: "set (field_names a) \<inter> set (field_names b) = {}"
    by (simp add: fields_append)
  show "unambiguous v a"
    unfolding unambiguous_def
  proof (intro allI impI)
    fix w
    assume ok: "\<forall>n \<in> set (field_names a). CHR ''/'' \<notin> set (w n) \<and> newline \<notin> set (w n)"
      and same: "subst w a = subst v a"
    let ?w = "\<lambda>n. if n \<in> set (field_names a) then w n else v n"
    have "\<forall>n \<in> set (field_names (a @ b)). CHR ''/'' \<notin> set (?w n) \<and> newline \<notin> set (?w n)"
      using ok assms(2) by (auto simp: fields_append)
    moreover have "subst ?w a = subst w a" by (rule subst_cong) simp
    moreover have "subst ?w b = subst v b" by (rule subst_cong) (use disj in auto)
    ultimately have "\<not> longer_first ?w v (field_names (a @ b))"
      using assms(3) same by (simp add: unambiguous_def subst_append)
    then have "\<not> longer_first ?w v (field_names a)"
      using longer_first_append [of ?w v "field_names a" "field_names b"]
      by (auto simp: fields_append)
    moreover have "longer_first ?w v (field_names a) = longer_first w v (field_names a)"
      by (rule longer_first_cong) simp
    ultimately show "\<not> longer_first w v (field_names a)" by simp
  qed
  show "unambiguous v b"
    unfolding unambiguous_def
  proof (intro allI impI)
    fix w
    assume ok: "\<forall>n \<in> set (field_names b). CHR ''/'' \<notin> set (w n) \<and> newline \<notin> set (w n)"
      and same: "subst w b = subst v b"
    let ?w = "\<lambda>n. if n \<in> set (field_names b) then w n else v n"
    have "\<forall>n \<in> set (field_names (a @ b)). CHR ''/'' \<notin> set (?w n) \<and> newline \<notin> set (?w n)"
      using ok assms(2) by (auto simp: fields_append)
    moreover have "subst ?w b = subst w b" by (rule subst_cong) simp
    moreover have "subst ?w a = subst v a" by (rule subst_cong) (use disj in auto)
    ultimately have "\<not> longer_first ?w v (field_names (a @ b))"
      using assms(3) same by (simp add: unambiguous_def subst_append)
    moreover have "longer_first ?w v (field_names a @ field_names b) =
        longer_first ?w v (field_names b)"
      by (rule longer_first_same_prefix) (use disj in auto)
    moreover have "longer_first ?w v (field_names b) = longer_first w v (field_names b)"
      by (rule longer_first_cong) simp
    ultimately show "\<not> longer_first w v (field_names b)" by (simp add: fields_append)
  qed
qed

lemma unambiguous_separator:
  "unambiguous v (PathSeparator # toks) = unambiguous v toks"
  "unambiguous v (toks @ [PathSeparator]) = unambiguous v toks"
  by (simp_all add: unambiguous_def subst_append fields_append)

lemma take_takeWhile: "k \<le> length (takeWhile P u) \<Longrightarrow> x \<in> set (take k u) \<Longrightarrow> P x"
proof (induction u arbitrary: k)
  case Nil
  then show ?case by simp
next
  case (Cons a u)
  then show ?case by (cases k) (auto split: if_splits)
qed

lemma take_dot_run: "k \<le> dot_run u \<Longrightarrow> newline \<notin> set (take k u)"
  using take_takeWhile [of k "\<lambda>c. c \<noteq> newline" u newline] by (auto simp: dot_run_def)

lemma match_components_all:
  "d + length cs = length (path_parts_re self) \<Longrightarrow>
     match_components self d cs = match_all (drop d (path_parts_re self)) cs"
proof (induction cs arbitrary: d)
  case Nil
  then show ?case by simp
next
  case (Cons c cs)
  then have d: "d < length (path_parts_re self)" by simp
  then have split: "drop d (path_parts_re self) =
      path_parts_re self ! d # drop (Suc d) (path_parts_re self)"
    by (simp add: Cons_nth_drop_Suc)
  from Cons.prems have "Suc d + length cs = length (path_parts_re self)" by simp
  from Cons.IH [OF this] d split show ?case
    by (simp add: match_part_def split: option.splits)
qed

lemma split_slash_single: "CHR ''/'' \<notin> set a \<Longrightarrow> split_slash a = [a]"
  by (induction a) auto

lemma split_slash_append:
  "CHR ''/'' \<notin> set a \<Longrightarrow> split_slash (a @ CHR ''/'' # b) = a # split_slash b"
  by (induction a) auto

lemma subst_no_slash:
  assumes "PathSeparator \<notin> set seg" and "Literal CHR ''/'' \<notin> set seg"
    and "\<forall>n \<in> set (field_names seg). CHR ''/'' \<notin> set (vals n)"
  shows "CHR ''/'' \<notin> set (subst vals seg)"
  using assms by (induction vals seg rule: subst.induct) auto

text \<open>
  What a segment matcher accepts is the text of its tokens for some values of its fields,
  none with a newline, possibly followed by a newline.
\<close>

lemma subst_update:
  "n \<notin> set (field_names toks) \<Longrightarrow> subst (w(n := x)) toks = subst w toks"
  by (rule subst_cong) auto

lemma match_parse:
  assumes "PathSeparator \<notin> set seg" and "distinct (field_names seg)"
    and "match_here (atoms seg @ [Dollar]) pos u = Some m"
  shows "\<exists>w. (\<forall>n. newline \<notin> set (w n) \<and> set (w n) \<subseteq> set u)
           \<and> (u = subst w seg \<or> u = subst w seg @ [newline])"
  using assms
proof (induction seg arbitrary: pos u m)
  case Nil
  then have "u = [] \<or> u = [newline]" by (auto split: if_splits)
  then show ?case by (intro exI [of _ "\<lambda>n. []"]) auto
next
  case (Cons t seg)
  show ?case
  proof (cases t)
    case PathSeparator
    with Cons.prems show ?thesis by simp
  next
    case (Property n)
    with Cons.prems have "first_some
       (\<lambda>k. map_option (extend_match (take k u) [(n, take k u)])
              (match_here (atoms seg @ [Dollar]) (pos + k) (drop k u)))
       (dot_run u) = Some m" by simp
    from first_some_witness [OF this] obtain k m' where k: "k \<le> dot_run u"
      and m': "match_here (atoms seg @ [Dollar]) (pos + k) (drop k u) = Some m'"
      by auto
    from Cons.prems Property have "PathSeparator \<notin> set seg" "distinct (field_names seg)"
      and fresh: "n \<notin> set (field_names seg)"
      by auto
    from Cons.IH [OF this(1,2) m'] obtain w
      where w: "\<forall>x. newline \<notin> set (w x) \<and> set (w x) \<subseteq> set (drop k u)"
        and parsed: "drop k u = subst w seg \<or> drop k u = subst w seg @ [newline]"
      by blast
    let ?w = "w(n := take k u)"
    have "\<forall>x. newline \<notin> set (?w x) \<and> set (?w x) \<subseteq> set u"
      using w take_dot_run [OF k] set_take_subset [of k u] set_drop_subset [of k u]
      by auto
    moreover have "subst ?w (t # seg) = take k u @ subst w seg"
      using Property subst_update [OF fresh] by simp
    moreover have "u = take k u @ drop k u" by simp
    ultimately have "(\<forall>x. newline \<notin> set (?w x) \<and> set (?w x) \<subseteq> set u)
        \<and> (u = subst ?w (t # seg) \<or> u = subst ?w (t # seg) @ [newline])"
      using parsed by (metis append_assoc)
    then show ?thesis by blast
  next
    case (Literal c)
    with Cons.prems obtain xs m' where u: "u = c # xs"
      and m': "match_here (atoms seg @ [Dollar]) (Suc pos) xs = Some m'"
      by (auto split: list.splits if_splits)
    from Cons.prems Literal have "PathSeparator \<notin> set seg" "distinct (field_names seg)"
      by auto
    from Cons.IH [OF this m'] obtain w
      where w: "\<forall>x. newline \<notin> set (w x) \<and> set (w x) \<subseteq> set xs"
        and parsed: "xs = subst w seg \<or> xs = subst w seg @ [newline]"
      by blast
    have "(\<forall>x. newline \<notin> set (w x) \<and> set (w x) \<subseteq> set u)
        \<and> (u = subst w (t # seg) \<or> u = subst w (t # seg) @ [newline])"
      using w parsed u Literal by auto
    then show ?thesis by blast
  qed
qed

lemma newlines_subst:
  "\<forall>n \<in> set (field_names toks). newline \<notin> set (w n) \<Longrightarrow>
     length (filter (\<lambda>c. c = newline) (subst w toks)) =
     length (filter (\<lambda>c. c = newline) (subst (\<lambda>n. []) toks))"
proof (induction w toks rule: subst.induct)
  case (3 vals n toks)
  then have "filter (\<lambda>c. c = newline) (vals n) = []"
    by (auto simp: filter_empty_conv)
  with 3 show ?case by simp
qed auto

lemma subst_not_with_newline:
  assumes "\<forall>n \<in> set (field_names toks). newline \<notin> set (w n)"
    and "\<forall>n \<in> set (field_names toks). newline \<notin> set (v n)"
  shows "subst v toks \<noteq> subst w toks @ [newline]"
proof
  assume "subst v toks = subst w toks @ [newline]"
  then have "length (filter (\<lambda>c. c = newline) (subst v toks)) =
      Suc (length (filter (\<lambda>c. c = newline) (subst w toks)))"
    by simp
  with newlines_subst [OF assms(1)] newlines_subst [OF assms(2)] show False by simp
qed

lemma match_segment_unambiguous:
  assumes "PathSeparator \<notin> set seg" and "Literal CHR ''/'' \<notin> set seg"
    and "distinct (field_names seg)"
    and "\<forall>n \<in> set (field_names seg). CHR ''/'' \<notin> set (v n) \<and> newline \<notin> set (v n)"
    and "unambiguous v seg"
  shows "match_here (atoms seg @ [Dollar]) pos (subst v seg) =
           Some \<lparr>group0 = subst v seg, groupdict = map (\<lambda>n. (n, v n)) (field_names seg)\<rparr>"
  using assms
proof (induction seg arbitrary: pos)
  case Nil
  show ?case by simp
next
  case (Cons t seg)
  have split: "unambiguous v [t] \<and> unambiguous v seg"
    using unambiguous_append [of "[t]" seg v] Cons.prems by simp
  have rest: "match_here (atoms seg @ [Dollar]) p (subst v seg) =
      Some \<lparr>group0 = subst v seg, groupdict = map (\<lambda>n. (n, v n)) (field_names seg)\<rparr>" for p
    using Cons.prems split by (intro Cons.IH) (cases t; auto)+
  show ?case
  proof (cases t)
    case PathSeparator
    with Cons.prems show ?thesis by simp
  next
    case (Literal c)
    with rest [of "Suc pos"] show ?thesis by (simp add: extend_match_def)
  next
    case (Property n)
    define s where "s = v n @ subst v seg"
    let ?f = "\<lambda>k. map_option (extend_match (take k s) [(n, take k s)])
                (match_here (atoms seg @ [Dollar]) (pos + k) (drop k s))"
    from Cons.prems Property have vn: "CHR ''/'' \<notin> set (v n)" "newline \<notin> set (v n)"
      and fresh: "n \<notin> set (field_names seg)" and dist: "distinct (field_names seg)"
      and seps: "PathSeparator \<notin> set seg" "Literal CHR ''/'' \<notin> set seg"
      and ok: "\<forall>x \<in> set (field_names seg). CHR ''/'' \<notin> set (v x) \<and> newline \<notin> set (v x)"
      by auto
    have derived: "subst v (t # seg) = s"
      using Property by (simp add: s_def)
    have noslash: "CHR ''/'' \<notin> set s"
      using subst_no_slash [OF seps, of v] ok vn by (simp add: s_def)
    have at: "?f (length (v n)) =
        Some \<lparr>group0 = s, groupdict = (n, v n) # map (\<lambda>n. (n, v n)) (field_names seg)\<rparr>"
      using rest [of "pos + length (v n)"] by (simp add: extend_match_def s_def)
    have above: "\<forall>k. length (v n) < k \<and> k \<le> dot_run s \<longrightarrow> ?f k = None"
    proof (intro allI impI)
      fix k assume k: "length (v n) < k \<and> k \<le> dot_run s"
      show "?f k = None"
      proof (rule ccontr)
        assume "?f k \<noteq> None"
        then obtain m' where
          m': "match_here (atoms seg @ [Dollar]) (pos + k) (drop k s) = Some m'"
          by auto
        from match_parse [OF seps(1) dist m'] obtain w
          where w: "\<forall>x. newline \<notin> set (w x) \<and> set (w x) \<subseteq> set (drop k s)"
            and parsed: "drop k s = subst w seg \<or> drop k s = subst w seg @ [newline]"
          by blast
        let ?w = "w(n := take k s)"
        have inside: "set (w x) \<subseteq> set s" for x
          using w set_drop_subset [of k s] by blast
        have taken: "newline \<notin> set (take k s)" "CHR ''/'' \<notin> set (take k s)"
          using take_dot_run [of k s] k set_take_subset [of k s] noslash by auto
        have wok: "\<forall>x \<in> set (field_names (t # seg)).
            CHR ''/'' \<notin> set (?w x) \<and> newline \<notin> set (?w x)"
          using w inside noslash taken by auto
        have sub: "subst ?w (t # seg) = take k s @ subst w seg"
          using Property subst_update [OF fresh] by simp
        have whole: "take k s @ drop k s = s" by (rule append_take_drop_id)
        from parsed show False
        proof
          assume "drop k s = subst w seg"
          with sub whole derived have "subst ?w (t # seg) = subst v (t # seg)"
            by simp
          with Cons.prems(5) wok have "\<not> longer_first ?w v (field_names (t # seg))"
            unfolding unambiguous_def by blast
          moreover have "length (take k s) = k"
            using k dot_run_le [of s] by simp
          ultimately show False using k Property by simp
        next
          assume "drop k s = subst w seg @ [newline]"
          with sub whole derived have "subst v (t # seg) = subst ?w (t # seg) @ [newline]"
            by (metis append_assoc)
          moreover have "\<forall>x \<in> set (field_names (t # seg)). newline \<notin> set (?w x)"
            using wok by blast
          moreover have "\<forall>x \<in> set (field_names (t # seg)). newline \<notin> set (v x)"
            using Cons.prems(4) by blast
          ultimately show False using subst_not_with_newline by blast
        qed
      qed
    qed
    have "length (v n) \<le> dot_run s"
      unfolding s_def by (rule dot_run_ge [OF vn(2)])
    from first_some_found [OF this at above] Property
    show ?thesis by (simp add: s_def)
  qed
qed

text \<open>
  The matchers of a pattern, on the components of the text that the values \<open>vals\<close> give:
  when these values are the reading that the greedy matchers prefer, each matcher
  captures the values of its fields.
\<close>

lemma match_compiled:
  assumes "PathSeparator \<notin> set acc"
    and "toks \<noteq> []" and "last toks = PathSeparator"
    and "distinct (field_names (acc @ toks))"
    and "Literal CHR ''/'' \<notin> set (acc @ toks)"
    and "\<forall>n \<in> set (field_names (acc @ toks)). CHR ''/'' \<notin> set (vals n) \<and> newline \<notin> set (vals n)"
    and "unambiguous vals (acc @ toks)"
  shows "match_all (compile (atoms acc) toks)
           (split_slash (subst vals acc @ subst vals (butlast toks))) =
         Some (map (\<lambda>n. (n, vals n)) (field_names (acc @ toks)))
       \<and> length (split_slash (subst vals acc @ subst vals (butlast toks))) =
         length (compile (atoms acc) toks)"
  using assms
proof (induction toks arbitrary: acc)
  case Nil
  then show ?case by simp
next
  case (Cons t ts)
  have noslash: "CHR ''/'' \<notin> set (subst vals acc)"
    using Cons.prems by (intro subst_no_slash) (auto simp: fields_append)
  show ?case
  proof (cases t)
    case PathSeparator
    from unambiguous_append [OF Cons.prems(4) Cons.prems(6) Cons.prems(7)] PathSeparator
    have unamb: "unambiguous vals acc" "unambiguous vals ts"
      by (simp_all add: unambiguous_separator)
    have "match_here (atoms acc @ [Dollar]) 0 (subst vals acc) =
        Some \<lparr>group0 = subst vals acc, groupdict = map (\<lambda>n. (n, vals n)) (field_names acc)\<rparr>"
      using Cons.prems unamb(1)
      by (intro match_segment_unambiguous) (auto simp: fields_append)
    then have here: "re_match ([Caret] @ atoms acc @ [Dollar]) (subst vals acc) =
        Some \<lparr>group0 = subst vals acc, groupdict = map (\<lambda>n. (n, vals n)) (field_names acc)\<rparr>"
      by (simp add: re_match_def)
    show ?thesis
    proof (cases "ts = []")
      case True
      with PathSeparator here noslash show ?thesis
        by (simp add: split_slash_single fields_append)
    next
      case False
      have "match_all (compile (atoms []) ts)
              (split_slash (subst vals [] @ subst vals (butlast ts))) =
            Some (map (\<lambda>n. (n, vals n)) (field_names ([] @ ts)))
          \<and> length (split_slash (subst vals [] @ subst vals (butlast ts))) =
            length (compile (atoms []) ts)"
        using Cons.prems False PathSeparator unamb(2)
        by (intro Cons.IH) (auto simp: fields_append)
      with PathSeparator False here noslash show ?thesis
        by (simp add: split_slash_append fields_append)
    qed
  next
    case (Property n)
    with Cons.prems have ts: "ts \<noteq> []" by auto
    have "match_all (compile (atoms (acc @ [t])) ts)
            (split_slash (subst vals (acc @ [t]) @ subst vals (butlast ts))) =
          Some (map (\<lambda>n. (n, vals n)) (field_names ((acc @ [t]) @ ts)))
        \<and> length (split_slash (subst vals (acc @ [t]) @ subst vals (butlast ts))) =
          length (compile (atoms (acc @ [t])) ts)"
      using Cons.prems ts Property
      by (intro Cons.IH) (auto simp: atoms_append fields_append)
    with Property ts show ?thesis
      by (simp add: atoms_append subst_append)
  next
    case (Literal c)
    with Cons.prems have ts: "ts \<noteq> []" by auto
    have "match_all (compile (atoms (acc @ [t])) ts)
            (split_slash (subst vals (acc @ [t]) @ subst vals (butlast ts))) =
          Some (map (\<lambda>n. (n, vals n)) (field_names ((acc @ [t]) @ ts)))
        \<and> length (split_slash (subst vals (acc @ [t]) @ subst vals (butlast ts))) =
          length (compile (atoms (acc @ [t])) ts)"
      using Cons.prems ts Literal
      by (intro Cons.IH) (auto simp: atoms_append fields_append)
    with Literal ts show ?thesis
      by (simp add: atoms_append subst_append)
  qed
qed

lemma name_char_plain:
  "is_name_char c \<Longrightarrow> c \<noteq> CHR ''{'' \<and> c \<noteq> CHR ''}'' \<and> \<not> ends_name c"
  by (auto simp: is_name_char_def is_alpha_def is_digit_def ends_name_def)

lemma identifier_plain:
  assumes "isidentifier n"
  shows "n \<noteq> [] \<and> CHR ''{'' \<notin> set n \<and> CHR ''}'' \<notin> set n
       \<and> takeWhile (\<lambda>c. \<not> ends_name c) n = n \<and> \<not> list_all is_digit n"
proof -
  from assms obtain c cs where n: "n = c # cs" "\<not> is_digit c" "list_all is_name_char (c # cs)"
    by (auto simp: isidentifier_def split: list.splits)
  then have all: "\<forall>x \<in> set n. x \<noteq> CHR ''{'' \<and> x \<noteq> CHR ''}'' \<and> \<not> ends_name x"
    using name_char_plain by (auto simp: list_all_iff)
  then have "takeWhile (\<lambda>c. \<not> ends_name c) n = n"
    by (intro takeWhile_eq_all_conv [THEN iffD2]) blast
  with n all show ?thesis by auto
qed

lemma render_identifier:
  assumes "isidentifier n" and "vm n = Some v"
  shows "render_field h vm n = Inr v"
proof -
  from identifier_plain [OF assms(1)]
  have tw: "takeWhile (\<lambda>c. \<not> ends_name c) n = n" and ne: "n \<noteq> []"
    and nd: "\<not> list_all is_digit n" by blast+
  show ?thesis unfolding render_field_def Let_def tw using ne nd assms(2) by simp
qed

lemma format_in_field:
  "CHR ''{'' \<notin> set n \<Longrightarrow> CHR ''}'' \<notin> set n \<Longrightarrow>
   format_loop h vm (InField 1 buf) (n @ CHR ''}'' # rest) =
     (case render_field h vm (buf @ n) of
        Inl e \<Rightarrow> Inl e
      | Inr text \<Rightarrow> map_sum id ((@) text) (format_loop h vm Outside rest))"
  by (induction n arbitrary: buf) auto

lemma format_plain_char:
  "c \<noteq> CHR ''{'' \<Longrightarrow> c \<noteq> CHR ''}'' \<Longrightarrow>
   format_loop h vm Outside (c # rest) = map_sum id ((#) c) (format_loop h vm Outside rest)"
  by (cases rest) auto

lemma format_unparse:
  assumes "\<forall>n \<in> set (field_names toks). isidentifier n \<and> vm n = Some (vals n)"
  shows "format_loop h vm Outside (unparse toks) = Inr (subst vals toks)"
  using assms
proof (induction toks rule: unparse.induct)
  case 1
  show ?case by simp
next
  case (2 toks)
  then show ?case by (simp add: format_plain_char)
next
  case (3 n toks)
  then have plain: "n \<noteq> []" "CHR ''{'' \<notin> set n" "CHR ''}'' \<notin> set n"
    and rendered: "render_field h vm n = Inr (vals n)"
    using identifier_plain [of n] render_identifier [of n vm "vals n" h] by auto
  from plain obtain d n' where n: "n = d # n'" "d \<noteq> CHR ''{''" by (cases n) auto
  have "format_loop h vm Outside (CHR ''{'' # n @ CHR ''}'' # unparse toks) =
      format_loop h vm (InField 1 []) (n @ CHR ''}'' # unparse toks)"
    using n by simp
  also have "\<dots> = map_sum id ((@) (vals n)) (format_loop h vm Outside (unparse toks))"
    using format_in_field [OF plain(2,3), of h vm "[]" "unparse toks"] rendered by simp
  also have "\<dots> = Inr (vals n @ subst vals toks)"
    using 3 by simp
  finally show ?case by simp
next
  case (4 c toks)
  then show ?case by (simp add: format_plain_char)
qed

lemma filename_loop_values:
  assumes "\<forall>n \<in> set names. \<exists>v. map_of (item_values it) n = Some v
             \<and> strict_unicode v = Inr (vals n) \<and> CHR ''/'' \<notin> set (vals n)"
  shows "filename_loop it vm names =
           Inr (\<lambda>n. if n \<in> set names then Some (vals n) else vm n)"
  using assms
proof (induction names arbitrary: vm)
  case Nil
  show ?case by simp
next
  case (Cons a names)
  then obtain v where v: "map_of (item_values it) a = Some v" "strict_unicode v = Inr (vals a)"
    "CHR ''/'' \<notin> set (vals a)" by auto
  have "filename_loop it (vm(a \<mapsto> vals a)) names =
      Inr (\<lambda>n. if n \<in> set names then Some (vals n) else (vm(a \<mapsto> vals a)) n)"
    using Cons.prems by (intro Cons.IH) simp
  moreover have "(\<lambda>n. if n \<in> set names then Some (vals n) else (vm(a \<mapsto> vals a)) n) =
      (\<lambda>n. if n \<in> set (a # names) then Some (vals n) else vm n)"
    by (rule ext) simp
  ultimately show ?case using v by (simp add: getitem_def)
qed

lemma tokenize_no_literal_slash:
  "Literal CHR ''/'' \<notin> set (fst (tokenize_loop in_field field_name prev_char s))"
  by (induction s arbitrary: in_field field_name prev_char)
    (auto simp: yield_def Let_def split: option.splits)

lemma fold_setitem_fields:
  "\<exists>ps. fold (\<lambda>p s. s\<lparr>properties := setitem p ty (properties s)\<rparr>) props s = s\<lparr>properties := ps\<rparr>"
proof (induction props arbitrary: s)
  case Nil
  have "s = s\<lparr>properties := properties s\<rparr>" by simp
  then show ?case by (metis fold_simps(1))
next
  case (Cons p props)
  from Cons.IH [of "s\<lparr>properties := setitem p ty (properties s)\<rparr>"] show ?case by auto
qed

lemma Filesystem_init_fields:
  assumes "Filesystem_init nm rd pat enc cp = Inr self"
  shows "\<exists>res. parse_pattern pat = Inr (res, identity_properties self)
           \<and> path_parts_re self = res \<and> pattern self = pat \<and> root_dir self = rd"
proof -
  from assms obtain res props where p: "parse_pattern pat = Inr (res, props)"
    by (auto simp: Filesystem_init_def split: sum.splits)
  let ?s0 = "AbstractCorn_init nm props
         \<lparr>name = [], root_dir = rd, pattern = pat, encoding = enc, content_property = cp,
          path_parts_re = res, identity_properties = [], properties = []\<rparr>"
  obtain ps where "fold (\<lambda>property_name s.
        s\<lparr>properties := setitem property_name \<lparr>type_type = unicode, type_name = nm\<rparr>
                          (properties s)\<rparr>) props ?s0 = ?s0\<lparr>properties := ps\<rparr>"
    using fold_setitem_fields by blast
  with assms p show ?thesis
    by (auto simp: Filesystem_init_def Let_def AbstractCorn_init_def)
qed

lemma map_of_keys: "n \<in> set ks \<Longrightarrow> map_of (map (\<lambda>k. (k, f k)) ks) n = Some (f n)"
  by (induction ks) auto

text \<open>The tokens of a pattern that an access point was built from.\<close>

lemma parsed_tokens:
  assumes "Filesystem_init nm rd pat enc cp = Inr self"
  shows "identity_properties self = field_names (fst (tokenize_pattern pat))
       \<and> path_parts_re self = compile [] (fst (tokenize_pattern pat))
       \<and> (\<forall>n \<in> set (field_names (fst (tokenize_pattern pat))). isidentifier n)
       \<and> distinct (field_names (fst (tokenize_pattern pat)))
       \<and> fst (tokenize_pattern pat) \<noteq> [] \<and> last (fst (tokenize_pattern pat)) = PathSeparator
       \<and> field_names (butlast (fst (tokenize_pattern pat))) =
           field_names (fst (tokenize_pattern pat))
       \<and> pattern self = pat"
proof -
  let ?ids = "identity_properties self" and ?res = "path_parts_re self"
  from Filesystem_init_fields [OF assms]
  have parsed: "parse_pattern pat = Inr (?res, ?ids)" and pat: "pattern self = pat"
    by auto
  obtain toks raised where tok: "tokenize_pattern pat = (toks, raised)"
    by (cases "tokenize_pattern pat")
  with parsed have loop: "parse_loop pat [] [] [] None toks = Inr (?ids, ?res, Some PathSeparator)"
    by (auto simp: parse_pattern_def split: sum.splits option.splits if_splits)
  from parse_loop_result [OF loop]
  have ids: "?ids = field_names toks" and res: "?res = compile [] toks"
    and idents: "\<forall>n \<in> set (field_names toks). isidentifier n"
    and ends: "toks \<noteq> []" "last toks = PathSeparator"
    by (auto split: if_splits)
  from ends have "toks = butlast toks @ [PathSeparator]"
    by (metis append_butlast_last_id)
  then have "field_names toks = field_names (butlast toks) @ field_names [PathSeparator]"
    by (metis fields_append)
  then have fields_butlast: "field_names (butlast toks) = field_names toks"
    by simp
  from parse_loop_distinct [OF loop] ids have "distinct (field_names toks)" by simp
  with ids res idents ends fields_butlast pat tok show ?thesis by simp
qed

lemma filename_derived:
  assumes "Filesystem_init nm rd pat enc cp = Inr self"
    and "pat = unparse (butlast (fst (tokenize_pattern pat)))"
    and "corn it = self"
    and "\<forall>n \<in> set (identity_properties self). \<exists>v. map_of (item_values it) n = Some v
           \<and> strict_unicode v = Inr (vals n) \<and> CHR ''/'' \<notin> set (vals n)"
  shows "filename h it = Inr (subst vals (butlast (fst (tokenize_pattern pat))))"
proof -
  let ?ids = "identity_properties self" and ?toks = "fst (tokenize_pattern pat)"
  from parsed_tokens [OF assms(1)]
  have ids: "?ids = field_names ?toks" and idents: "\<forall>n \<in> set (field_names ?toks). isidentifier n"
    and fields_butlast: "field_names (butlast ?toks) = field_names ?toks"
    and pat: "pattern self = pat"
    by blast+
  let ?vm = "\<lambda>n. if n \<in> set ?ids then Some (vals n) else None"
  have "filename_loop it Map.empty ?ids = Inr ?vm"
    using assms(4) by (intro filename_loop_values) blast
  moreover have "str_format h pat ?vm = Inr (subst vals (butlast ?toks))"
  proof -
    have "format_loop h ?vm Outside (unparse (butlast ?toks)) = Inr (subst vals (butlast ?toks))"
      using idents ids fields_butlast by (intro format_unparse) simp
    with assms(2) show ?thesis by (simp add: str_format_def)
  qed
  ultimately show ?thesis
    using assms(3) pat by (simp add: filename_def)
qed

lemma filename_record_of:
  assumes "Filesystem_init nm rd pat enc cp = Inr self"
    and "pat = unparse (butlast (fst (tokenize_pattern pat)))"
    and "\<forall>n \<in> set (identity_properties self). CHR ''/'' \<notin> set (w n)"
  shows "filename h (record_of self w) = Inr (subst w (butlast (fst (tokenize_pattern pat))))"
proof -
  have "corn (record_of self w) = self" by (simp add: record_of_def)
  moreover have "\<forall>n \<in> set (identity_properties self).
      \<exists>v. map_of (item_values (record_of self w)) n = Some v
        \<and> strict_unicode v = Inr (w n) \<and> CHR ''/'' \<notin> set (w n)"
    using assms(3) by (simp add: record_of_def map_of_keys strict_unicode_def)
  ultimately show ?thesis
    by (rule filename_derived [OF assms(1,2)])
qed

text \<open>
  C1, as the code has it. For an access point whose pattern is the \<open>unparse\<close> of its
  tokens, and a record of it whose identity values are text with neither a slash nor a
  newline and are the reading that the greedy matchers prefer of the path they derive (no
  other such values derive the same path with a longer value at the first field, in the
  order of the pattern, where they differ): the path is derived, it has one component for
  each segment matcher, and matching the components in order gives back exactly the
  values of the record, in the order of the identity properties.
\<close>

theorem round_trip_unambiguous:
  assumes "Filesystem_init nm rd pat enc cp = Inr self"
    and "pat = unparse (butlast (fst (tokenize_pattern pat)))"
    and "corn it = self"
    and "\<forall>n \<in> set (identity_properties self). \<exists>v. map_of (item_values it) n = Some v
           \<and> strict_unicode v = Inr (vals n)
           \<and> CHR ''/'' \<notin> set (vals n) \<and> newline \<notin> set (vals n)"
    and "\<forall>w. (\<forall>n \<in> set (identity_properties self).
                 CHR ''/'' \<notin> set (w n) \<and> newline \<notin> set (w n))
           \<longrightarrow> filename h (record_of self w) = filename h it
           \<longrightarrow> \<not> longer_first w vals (identity_properties self)"
  shows "\<exists>f. filename h it = Inr f
           \<and> length (split_slash f) = length (path_parts_re self)
           \<and> match_components self 0 (split_slash f) =
               Some (map (\<lambda>n. (n, vals n)) (identity_properties self))"
proof -
  let ?ids = "identity_properties self" and ?res = "path_parts_re self"
  let ?toks = "fst (tokenize_pattern pat)"
  from parsed_tokens [OF assms(1)]
  have ids: "?ids = field_names ?toks" and res: "?res = compile [] ?toks"
    and dist: "distinct (field_names ?toks)"
    and ends: "?toks \<noteq> []" "last ?toks = PathSeparator"
    and fields_butlast: "field_names (butlast ?toks) = field_names ?toks"
    by blast+
  have noslash: "Literal CHR ''/'' \<notin> set ?toks"
    using tokenize_no_literal_slash [of False None None pat]
    by (simp add: tokenize_pattern_def)
  have f: "filename h it = Inr (subst vals (butlast ?toks))"
    using assms(4) by (intro filename_derived [OF assms(1,2,3)]) blast
  have "unambiguous vals (butlast ?toks)"
    unfolding unambiguous_def
  proof (intro allI impI)
    fix w
    assume ok: "\<forall>n \<in> set (field_names (butlast ?toks)).
        CHR ''/'' \<notin> set (w n) \<and> newline \<notin> set (w n)"
      and same: "subst w (butlast ?toks) = subst vals (butlast ?toks)"
    from ok ids fields_butlast
    have ok': "\<forall>n \<in> set ?ids. CHR ''/'' \<notin> set (w n) \<and> newline \<notin> set (w n)" by simp
    then have "filename h (record_of self w) = Inr (subst w (butlast ?toks))"
      by (intro filename_record_of [OF assms(1,2)]) blast
    with same f have "filename h (record_of self w) = filename h it" by simp
    with assms(5) ok' have "\<not> longer_first w vals ?ids" by blast
    with ids fields_butlast show "\<not> longer_first w vals (field_names (butlast ?toks))"
      by simp
  qed
  moreover from ends have "?toks = butlast ?toks @ [PathSeparator]"
    by (metis append_butlast_last_id)
  ultimately have unamb: "unambiguous vals ([] @ ?toks)"
    by (metis unambiguous_separator(2) append_Nil)
  have "match_all (compile (atoms []) ?toks)
           (split_slash (subst vals [] @ subst vals (butlast ?toks))) =
         Some (map (\<lambda>n. (n, vals n)) (field_names ([] @ ?toks)))
       \<and> length (split_slash (subst vals [] @ subst vals (butlast ?toks))) =
         length (compile (atoms []) ?toks)"
    using ends assms(4) ids noslash dist unamb by (intro match_compiled) auto
  then have all: "match_all ?res (split_slash (subst vals (butlast ?toks))) =
      Some (map (\<lambda>n. (n, vals n)) ?ids)"
    and len: "length (split_slash (subst vals (butlast ?toks))) = length ?res"
    using res ids by simp_all
  from match_components_all [of 0 "split_slash (subst vals (butlast ?toks))" self] len all
  have "match_components self 0 (split_slash (subst vals (butlast ?toks))) =
      Some (map (\<lambda>n. (n, vals n)) ?ids)" by simp
  with f len show ?thesis by blast
qed

text \<open>
  The pattern \<^verbatim>\<open>{year}/{month}-{day}.txt\<close> with the month \<^verbatim>\<open>0-3\<close>: the value holds the
  character that separates the two fields of the segment, and is recovered, since no
  \<^verbatim>\<open>-\<close> follows the one that ends it.
\<close>

lemma separator_position:
  assumes "a @ c # b = s" and "c \<notin> set (drop k s)"
  shows "length a < k"
proof (rule ccontr)
  assume "\<not> length a < k"
  then have "drop k (a @ c # b) = drop k a @ c # b" by simp
  with assms show False by auto
qed

theorem round_trip_unambiguous_witness:
  "Filesystem_init ''diary'' ''/data'' ''{year}/{month}-{day}.txt'' None ''content'' =
     Inr diary_corn
   \<and> ''{year}/{month}-{day}.txt'' =
       unparse (butlast (fst (tokenize_pattern ''{year}/{month}-{day}.txt'')))
   \<and> filename simple_host
        \<lparr>corn = diary_corn,
         item_values = [(''year'', PyUnicode ''2024''), (''month'', PyUnicode ''0-3''),
                        (''day'', PyUnicode ''01'')],
         lazy_values = []\<rparr> = Inr ''2024/0-3-01.txt''
   \<and> match_components diary_corn 0 (split_slash ''2024/0-3-01.txt'') =
        Some [(''year'', ''2024''), (''month'', ''0-3''), (''day'', ''01'')]"
proof -
  let ?it = "\<lparr>corn = diary_corn,
         item_values = [(''year'', PyUnicode ''2024''), (''month'', PyUnicode ''0-3''),
                        (''day'', PyUnicode ''01'')],
         lazy_values = []\<rparr>"
  let ?vals = "\<lambda>n. if n = ''year'' then ''2024'' else if n = ''month'' then ''0-3'' else ''01''"
  have tokens: "butlast (fst (tokenize_pattern ''{year}/{month}-{day}.txt'')) =
      [Property ''year'', PathSeparator, Property ''month'', Literal CHR ''-'',
       Property ''day'', Literal CHR ''.'', Literal CHR ''t'', Literal CHR ''x'',
       Literal CHR ''t'']"
    by (simp add: tokenize_pattern_def yield_def)
  have canonical: "''{year}/{month}-{day}.txt'' =
      unparse (butlast (fst (tokenize_pattern ''{year}/{month}-{day}.txt'')))"
    unfolding tokens by simp
  have own: "corn ?it = diary_corn" by simp
  have plain: "\<forall>n \<in> set (identity_properties diary_corn).
      \<exists>v. map_of (item_values ?it) n = Some v \<and> strict_unicode v = Inr (?vals n)
        \<and> CHR ''/'' \<notin> set (?vals n) \<and> newline \<notin> set (?vals n)"
    by (simp add: diary_corn_def strict_unicode_def newline_def)
  have derived: "filename simple_host ?it = Inr ''2024/0-3-01.txt''"
    by code_simp
  have greedy: "\<forall>w. (\<forall>n \<in> set (identity_properties diary_corn).
                 CHR ''/'' \<notin> set (w n) \<and> newline \<notin> set (w n))
           \<longrightarrow> filename simple_host (record_of diary_corn w) = filename simple_host ?it
           \<longrightarrow> \<not> longer_first w ?vals (identity_properties diary_corn)"
  proof (intro allI impI)
    fix w
    assume ok: "\<forall>n \<in> set (identity_properties diary_corn).
                 CHR ''/'' \<notin> set (w n) \<and> newline \<notin> set (w n)"
      and same: "filename simple_host (record_of diary_corn w) = filename simple_host ?it"
    from ok have "\<forall>n \<in> set (identity_properties diary_corn). CHR ''/'' \<notin> set (w n)"
      by blast
    from filename_record_of [OF diary_corn_init canonical this, of simple_host]
    have "filename simple_host (record_of diary_corn w) =
        Inr (w ''year'' @ CHR ''/'' # w ''month'' @ CHR ''-'' # w ''day'' @ ''.txt'')"
      unfolding tokens by simp
    with same derived
    have path: "w ''year'' @ CHR ''/'' # (w ''month'' @ CHR ''-'' # w ''day'' @ ''.txt'') =
        ''2024/0-3-01.txt''"
      by simp
    from separator_position [OF path, of 5] have y: "length (w ''year'') < 5" by simp
    have m: "length (w ''month'') < 4" and d: "w ''month'' = ''0-3'' \<Longrightarrow> length (w ''day'') = 2"
      if "w ''year'' = ''2024''"
    proof -
      from path that
      have rest: "w ''month'' @ CHR ''-'' # (w ''day'' @ ''.txt'') = ''0-3-01.txt''"
        by simp
      from separator_position [OF rest, of 4] show "length (w ''month'') < 4" by simp
      assume "w ''month'' = ''0-3''"
      with rest have "w ''day'' @ ''.txt'' = ''01.txt''" by simp
      then have "length (w ''day'' @ ''.txt'') = length ''01.txt''" by simp
      then show "length (w ''day'') = 2" by simp
    qed
    from y m d show "\<not> longer_first w ?vals (identity_properties diary_corn)"
      by (auto simp: diary_corn_def)
  qed
  from round_trip_unambiguous [OF diary_corn_init canonical own plain greedy] derived
  have "match_components diary_corn 0 (split_slash ''2024/0-3-01.txt'') =
      Some [(''year'', ''2024''), (''month'', ''0-3''), (''day'', ''01'')]"
    by (simp add: diary_corn_def)
  with diary_corn_init canonical derived show ?thesis by simp
qed

text \<open>
  C1, as stated, fails: with two fields in one segment the greedy matcher need not split
  the component where the values were joined. For the pattern \<^verbatim>\<open>{a}-{b}\<close> the values
  a = x, b = y-z derive \<^verbatim>\<open>x-y-z\<close>, which matches as a = x-y, b = z: these are other
  values that derive the same path, with a longer value for \<^verbatim>\<open>a\<close>.
\<close>

theorem two_fields_not_recovered:
  "Filesystem_init ''files'' ''/data'' ''{a}-{b}'' None ''content'' = Inr dash_corn
   \<and> filename simple_host
        \<lparr>corn = dash_corn, item_values = [(''a'', PyUnicode ''x''), (''b'', PyUnicode ''y-z'')],
         lazy_values = []\<rparr> = Inr ''x-y-z''
   \<and> match_components dash_corn 0 (split_slash ''x-y-z'') =
        Some [(''a'', ''x-y''), (''b'', ''z'')]
   \<and> [(''a'', ''x-y''), (''b'', ''z'')] \<noteq> [(''a'', ''x''), (''b'', ''y-z'')]"
  by code_simp

text \<open>
  The other two conditions are needed as well. A value with a newline derives a
  component that its matcher rejects, since \<^verbatim>\<open>.\<close> matches no newline; and the pattern
  \<^verbatim>\<open>{x}}\<close>, which the tokenizer accepts as the field x and a literal brace, is a format
  string that \<^verbatim>\<open>str.format\<close> rejects, so no path is derived.
\<close>

lemma newline_value_not_matched:
  "filename simple_host (ab_item [CHR ''x'', newline, CHR ''y''] ''z'') =
     Inr [CHR ''x'', newline, CHR ''y'', CHR ''/'', CHR ''z'']
   \<and> match_part ab_corn 0 [CHR ''x'', newline, CHR ''y''] = Inr None"
  by code_simp

lemma stray_brace_pattern:
  "parse_pattern ''{x}}'' = Inr ([[Caret, NamedGroup ''x'', Escaped CHR ''}'', Dollar]], [''x''])
   \<and> str_format simple_host ''{x}}'' [''x'' \<mapsto> ''v''] =
       Inl (ValueError ''Single '}' encountered in format string'' [])"
  by (simp add: pattern_simps str_format_def render_field_def ends_name_def)

text \<open>
  A pattern with doubled braces that both readers agree on, there and back.
\<close>

lemma braces_corn_init:
  "Filesystem_init ''files'' ''/data'' ''a{{b}}-{x}/{y}.txt'' None ''content'' = Inr braces_corn"
  by code_simp

lemma escaped_braces_round_trip:
  "''a{{b}}-{x}/{y}.txt'' = unparse (butlast (fst (tokenize_pattern ''a{{b}}-{x}/{y}.txt'')))
   \<and> filename simple_host
        \<lparr>corn = braces_corn,
         item_values = [(''x'', PyUnicode ''2024''), (''y'', PyUnicode ''march-01'')],
         lazy_values = []\<rparr> = Inr ''a{b}-2024/march-01.txt''
   \<and> match_components braces_corn 0 (split_slash ''a{b}-2024/march-01.txt'') =
        Some [(''x'', ''2024''), (''y'', ''march-01'')]"
  by code_simp

subsection \<open>Patterns that both readers agree on\<close>

text \<open>
  A pattern with no doubled brace that the tokenizer accepts is the \<open>unparse\<close> of its
  tokens: the condition of the round trip holds for every pattern that escapes no brace.
\<close>

lemma tokenize_loop_unparse:
  assumes "no_doubled_brace (case prev of None \<Rightarrow> s | Some p \<Rightarrow> p # s)"
    and "tokenize_loop in_field fn prev s = (toks, None)"
    and "in_field \<longrightarrow> fn \<noteq> None"
  shows "\<exists>ts. toks = ts @ [PathSeparator]
           \<and> unparse ts = (if in_field then CHR ''{'' # the fn @ s else s)"
  using assms
proof (induction s arbitrary: in_field fn prev toks)
  case Nil
  then show ?case by (auto split: if_splits)
next
  case (Cons c s)
  have next_ok: "no_doubled_brace (c # s)"
    using Cons.prems(1) by (cases prev) auto
  show ?case
  proof (cases in_field)
    case True
    with Cons.prems obtain nm where fn: "fn = Some nm" by auto
    show ?thesis
    proof (cases "c = CHR ''}''")
      case close: True
      obtain toks' r' where rest: "tokenize_loop False None (Some c) s = (toks', r')"
        by (cases "tokenize_loop False None (Some c) s")
      with Cons.prems(2) True fn close have toks: "toks = Property nm # toks'" and "r' = None"
        by (auto simp: yield_def Let_def)
      with rest have "tokenize_loop False None (Some c) s = (toks', None)" by simp
      from Cons.IH [OF _ this] next_ok
      obtain ts where "toks' = ts @ [PathSeparator]" "unparse ts = s" by auto
      with toks True fn close show ?thesis by auto
    next
      case False
      with Cons.prems(2) True fn
      have "tokenize_loop True (Some (nm @ [c])) (Some c) s = (toks, None)"
        by (auto simp: Let_def)
      from Cons.IH [OF _ this] next_ok
      obtain ts where "toks = ts @ [PathSeparator]" "unparse ts = CHR ''{'' # (nm @ [c]) @ s"
        by auto
      with True fn show ?thesis by auto
    qed
  next
    case outside: False
    have not_next: "(c = CHR ''{'' \<or> c = CHR ''}'') \<Longrightarrow>
        (case s of [] \<Rightarrow> None | n # x \<Rightarrow> Some n) \<noteq> Some c"
      using next_ok by (cases s) auto
    have not_prev: "(c = CHR ''{'' \<or> c = CHR ''}'') \<Longrightarrow> prev \<noteq> Some c"
      using Cons.prems(1) by (cases prev) auto
    show ?thesis
    proof (cases "c = CHR ''/''")
      case True
      obtain toks' r' where rest: "tokenize_loop False fn (Some c) s = (toks', r')"
        by (cases "tokenize_loop False fn (Some c) s")
      with Cons.prems(2) outside True have toks: "toks = PathSeparator # toks'" and "r' = None"
        by (auto simp: yield_def Let_def)
      with rest have "tokenize_loop False fn (Some c) s = (toks', None)" by simp
      from Cons.IH [OF _ this] next_ok
      obtain ts where "toks' = ts @ [PathSeparator]" "unparse ts = s" by auto
      with toks outside True show ?thesis by auto
    next
      case not_slash: False
      show ?thesis
      proof (cases "c = CHR ''{''")
        case True
        with Cons.prems(2) outside not_slash not_next not_prev
        have "tokenize_loop True (Some []) (Some c) s = (toks, None)"
          by (auto simp: Let_def)
        from Cons.IH [OF _ this] next_ok
        obtain ts where "toks = ts @ [PathSeparator]" "unparse ts = CHR ''{'' # [] @ s"
          by auto
        with outside True show ?thesis by auto
      next
        case not_open: False
        show ?thesis
        proof (cases "c = CHR ''}''")
          case True
          with Cons.prems(2) outside not_slash not_next not_prev show ?thesis
            by (auto simp: Let_def)
        next
          case False
          obtain toks' r' where rest: "tokenize_loop False fn (Some c) s = (toks', r')"
            by (cases "tokenize_loop False fn (Some c) s")
          with Cons.prems(2) outside not_slash not_open False
          have toks: "toks = Literal c # toks'" and "r' = None"
            by (auto simp: yield_def Let_def)
          with rest have "tokenize_loop False fn (Some c) s = (toks', None)" by simp
          from Cons.IH [OF _ this] next_ok
          obtain ts where "toks' = ts @ [PathSeparator]" "unparse ts = s" by auto
          with toks outside not_open False show ?thesis by auto
        qed
      qed
    qed
  qed
qed

lemma plain_pattern_unparse:
  assumes "no_doubled_brace pat" and "snd (tokenize_pattern pat) = None"
  shows "pat = unparse (butlast (fst (tokenize_pattern pat)))"
proof -
  obtain toks where "tokenize_loop False None None pat = (toks, None)"
    using assms(2) by (cases "tokenize_pattern pat") (auto simp: tokenize_pattern_def)
  moreover from tokenize_loop_unparse [OF _ this] assms(1)
  obtain ts where "toks = ts @ [PathSeparator]" "unparse ts = pat" by auto
  ultimately show ?thesis by (simp add: tokenize_pattern_def)
qed

subsection \<open>What the anchors guarantee\<close>

lemma match_to_dollar:
  assumes "Caret \<notin> set body" and "Dollar \<notin> set body"
    and "match_here (body @ [Dollar]) pos s = Some m"
  shows "s = group0 m \<or> s = group0 m @ [newline]"
  using assms
proof (induction body arbitrary: pos s m)
  case Nil
  then show ?case by (auto split: if_splits)
next
  case (Cons a body)
  show ?case
  proof (cases a)
    case Caret
    with Cons.prems show ?thesis by simp
  next
    case Dollar
    with Cons.prems show ?thesis by simp
  next
    case (Escaped c)
    with Cons.prems obtain xs m' where s: "s = c # xs"
      and m': "match_here (body @ [Dollar]) (Suc pos) xs = Some m'"
      and m: "m = extend_match [c] [] m'"
      by (auto split: list.splits if_splits)
    from Cons.IH [OF _ _ m'] Cons.prems have "xs = group0 m' \<or> xs = group0 m' @ [newline]"
      by simp
    with s m show ?thesis by (auto simp: extend_match_def)
  next
    case (NamedGroup n)
    with Cons.prems obtain k where
      "map_option (extend_match (take k s) [(n, take k s)])
         (match_here (body @ [Dollar]) (pos + k) (drop k s)) = Some m"
      using first_some_witness by fastforce
    then obtain m' where m': "match_here (body @ [Dollar]) (pos + k) (drop k s) = Some m'"
      and m: "m = extend_match (take k s) [(n, take k s)] m'"
      by auto
    from Cons.IH [OF _ _ m'] Cons.prems
    have "drop k s = group0 m' \<or> drop k s = group0 m' @ [newline]" by simp
    then have "s = take k s @ group0 m' \<or> s = take k s @ group0 m' @ [newline]"
      by (metis append_take_drop_id)
    with m show ?thesis by (simp add: extend_match_def)
  qed
qed

lemma compile_shape:
  assumes "Caret \<notin> set acc" and "Dollar \<notin> set acc" and "r \<in> set (compile acc toks)"
  shows "\<exists>body. r = [Caret] @ body @ [Dollar] \<and> Caret \<notin> set body \<and> Dollar \<notin> set body"
  using assms by (induction acc toks rule: compile.induct) auto

text \<open>
  A segment matcher of a compiled pattern accepts a component only by matching all of it,
  or all of it but a newline that ends it.
\<close>

lemma anchored_up_to_newline:
  assumes "parse_pattern pat = Inr (res, ids)" and "r \<in> set res" and "re_match r s = Some m"
  shows "s = group0 m \<or> s = group0 m @ [newline]"
proof -
  obtain toks raised where tok: "tokenize_pattern pat = (toks, raised)"
    by (cases "tokenize_pattern pat")
  with assms(1) have "parse_loop pat [] [] [] None toks = Inr (ids, res, Some PathSeparator)"
    by (auto simp: parse_pattern_def split: sum.splits option.splits if_splits)
  from parse_loop_result [OF this] have "res = compile [] toks" by simp
  with assms(2) obtain body where r: "r = [Caret] @ body @ [Dollar]"
    and body: "Caret \<notin> set body" "Dollar \<notin> set body"
    using compile_shape [of "[]" r toks] by auto
  from assms(3) r have "match_here (body @ [Dollar]) 0 s = Some m"
    by (simp add: re_match_def)
  from match_to_dollar [OF body this] show ?thesis .
qed

subsection \<open>Enumerating from the root\<close>

lemma compile_nonempty: "toks \<noteq> [] \<Longrightarrow> last toks = PathSeparator \<Longrightarrow> compile acc toks \<noteq> []"
  by (induction acc toks rule: compile.induct) (auto split: if_splits)

lemma parsed_has_segments:
  assumes "parse_pattern pat = Inr (res, ids)"
  shows "res \<noteq> []"
proof -
  obtain toks raised where tok: "tokenize_pattern pat = (toks, raised)"
    by (cases "tokenize_pattern pat")
  with assms have "parse_loop pat [] [] [] None toks = Inr (ids, res, Some PathSeparator)"
    by (auto simp: parse_pattern_def split: sum.splits option.splits if_splits)
  from parse_loop_result [OF this]
  have "res = compile [] toks" "toks \<noteq> []" "last toks = PathSeparator"
    by (auto split: if_splits)
  then show ?thesis using compile_nonempty by simp
qed

lemma generated_no_raise:
  "\<forall>e. Raise e \<notin> set evs \<Longrightarrow>
     snd (generated evs) = None \<and> set (fst (generated evs)) = {x. Yield x \<in> set evs}"
proof (induction evs)
  case Nil
  show ?case by simp
next
  case (Cons ev evs)
  then show ?case by (cases ev) (auto simp: yield_def)
qed

text \<open>
  For an access point that \<open>Filesystem_init\<close> has built and a root directory that can be
  listed, \<^verbatim>\<open>_all\<close> raises nothing and yields exactly the records that chains of
  matching entries lead to from the root.
\<close>

lemma all_items_are_reached:
  assumes "Filesystem_init nm rd pat enc cp = Inr self"
    and "os_listdir st (root_dir self) = Inr names"
  shows "snd (all_items self st) = None
       \<and> set (fst (all_items self st)) = {it. \<exists>chain. reaches self st [] [] chain it}"
proof -
  from Filesystem_init_fields [OF assms(1)] parsed_has_segments
  have depth: "length ([] :: string list) < length (path_parts_re self)" by auto
  have "\<forall>e. Raise e \<notin> set (walk self st [] [])"
    using walk_raises [OF depth, of _ st "[]"] assms(2) by (simp add: join_def)
  from generated_no_raise [OF this] walk_yields [OF depth, of _ st "[]"]
  show ?thesis by (simp add: all_items_def)
qed

end
